theory Spec2Isabelle
  imports Complex_Main "HOL-Library.Log_Nat"
begin

section \<open>Viral or Fail: score extraction, rubric store, trend source and round loop\<close>

text \<open>
  A shallow embedding of the Python program. Text is a \<^typ>\<open>string\<close>, read as a sequence of
  8-bit code points: the Latin-1 part of Python's \<open>str\<close>. Exceptions are values of
  \<open>error\<close>, and a function that may raise returns \<open>error + 'a\<close>.
\<close>

subsection \<open>Exceptions\<close>

datatype error =
    OverflowError
  | ValueError
  | TypeError
  | KeyError string
  | UnknownPlatformError
  | BackendError
  | FileNotFoundError
  | JSONDecodeError

definition bind_result :: "error + 'a \<Rightarrow> ('a \<Rightarrow> error + 'b) \<Rightarrow> error + 'b" where
  "bind_result m f = (case m of Inl e \<Rightarrow> Inl e | Inr v \<Rightarrow> f v)"

subsection \<open>Python floats: binary64, round to nearest, ties to even\<close>

text \<open>
  Only non-negative floats arise (unsigned decimal tokens, the rubric weights and their
  products), so a float is a non-negative rational that binary64 represents, or infinity.
\<close>

datatype pyfloat = Finite rat | Infinity

definition pow2 :: "int \<Rightarrow> rat" where
  "pow2 k = (if 0 \<le> k then 2 ^ nat k else 1 / 2 ^ nat (- k))"

text \<open>\<open>ilog2 x\<close> is the exponent \<open>e\<close> with \<open>2^e \<le> x < 2^(e+1)\<close>, for \<open>x > 0\<close>.\<close>

definition ilog2 :: "rat \<Rightarrow> int" where
  "ilog2 x = (if 1 \<le> x then bitlen \<lfloor>x\<rfloor> - 1 else - bitlen (\<lceil>1 / x\<rceil> - 1))"

definition round_half_even :: "rat \<Rightarrow> int" where
  "round_half_even x =
     (let f = \<lfloor>x\<rfloor>; d = x - of_int f
      in if d < 1 / 2 then f
         else if 1 / 2 < d then f + 1
         else if even f then f else f + 1)"

text \<open>
  The binary64 value nearest to a non-negative rational: 53 significant bits, exponent of
  the last place at least \<open>-1074\<close> (subnormals), infinity from \<open>2^1024\<close> on.
\<close>

definition rn :: "rat \<Rightarrow> pyfloat" where
  "rn x =
     (if x = 0 then Finite 0
      else let q = max (ilog2 x - 52) (- 1074);
               y = of_int (round_half_even (x / pow2 q)) * pow2 q
           in if 2 ^ 1024 \<le> y then Infinity else Finite y)"

text \<open>\<open>float(s)\<close> on the strings the number pattern captures: digits, or digits.digits.\<close>

definition digit :: "char \<Rightarrow> bool" where
  "digit c = (c \<in> set ''0123456789'')"

definition digit_val :: "char \<Rightarrow> int" where
  "digit_val c = of_char c - 48"

definition int_of_digits :: "string \<Rightarrow> int" where
  "int_of_digits ds = foldl (\<lambda>acc c. 10 * acc + digit_val c) 0 ds"

definition is_decimal :: "string \<Rightarrow> bool" where
  "is_decimal s =
     (let ip = takeWhile digit s; r = dropWhile digit s
      in ip \<noteq> [] \<and> (r = [] \<or> (hd r = CHR ''.'' \<and> tl r \<noteq> [] \<and> list_all digit (tl r))))"

definition decimal_value :: "string \<Rightarrow> rat" where
  "decimal_value s =
     (let ip = takeWhile digit s; fp = drop 1 (dropWhile digit s)
      in of_int (int_of_digits ip) + of_int (int_of_digits fp) / 10 ^ length fp)"

text \<open>
  Python's \<open>float\<close> accepts more spellings (signs, exponents, blanks); the extractor only ever
  passes it a capture of the number pattern, and on anything else the model answers
  \<open>ValueError\<close>.
\<close>

definition py_float :: "string \<Rightarrow> error + pyfloat" where
  "py_float s = (if is_decimal s then Inr (rn (decimal_value s)) else Inl ValueError)"

text \<open>\<open>round(x)\<close> with one argument: nearest integer, ties to even; infinity cannot be converted.\<close>

fun py_round :: "pyfloat \<Rightarrow> error + int" where
  "py_round (Finite x) = Inr (round_half_even x)"
| "py_round Infinity = Inl OverflowError"

text \<open>\<open>min(100, max(0, round(float(s))))\<close>\<close>

definition score_of :: "string \<Rightarrow> error + int" where
  "score_of s =
     bind_result (py_float s) (\<lambda>x. bind_result (py_round x) (\<lambda>n. Inr (min 100 (max 0 n))))"

subsection \<open>Regular expressions: the part of Python's \<open>re\<close> the extractor uses\<close>

text \<open>
  A backtracking matcher in the style of Python's \<open>sre\<close>: \<open>matches\<close> lists every way a
  pattern can match at the start of the text, in the order the engine tries them (a greedy
  repetition longest first, a lazy one shortest first). A result holds the matched text,
  group 1 if it took part, and the text left over. The repetitions of the extractor's
  patterns all range over a single character class.
\<close>

datatype regex =
    Lit string
  | Star "char \<Rightarrow> bool"
  | StarLazy "char \<Rightarrow> bool"
  | Plus "char \<Rightarrow> bool"
  | Opt regex
  | Group regex
  | Seq regex regex

text \<open>
  \<open>\s\<close> on 8-bit code points (Python's \<open>str.isspace\<close>), and \<open>str.lower\<close> there: the
  letters A to Z and the Latin-1 capitals. With \<open>IGNORECASE\<close> a literal matches a text
  character with the same lower case.
\<close>

definition space :: "char \<Rightarrow> bool" where
  "space c = (c \<in> set [CHR 0x09, CHR 0x0A, CHR 0x0B, CHR 0x0C, CHR 0x0D, CHR 0x1C, CHR 0x1D,
                         CHR 0x1E, CHR 0x1F, CHR 0x20, CHR 0x85, CHR 0xA0])"

definition lower :: "char \<Rightarrow> char" where
  "lower c =
     (let n = (of_char c :: int)
      in if (65 \<le> n \<and> n \<le> 90) \<or> (192 \<le> n \<and> n \<le> 222 \<and> n \<noteq> 215) then char_of (n + 32) else c)"

definition same_text :: "bool \<Rightarrow> string \<Rightarrow> string \<Rightarrow> bool" where
  "same_text ignorecase l t = (if ignorecase then map lower l = map lower t else l = t)"

type_synonym rmatch = "string \<times> string option \<times> string"

definition splits_at :: "string \<Rightarrow> nat list \<Rightarrow> rmatch list" where
  "splits_at s ks = map (\<lambda>k. (take k s, None, drop k s)) ks"

definition join_match :: "rmatch \<Rightarrow> rmatch \<Rightarrow> rmatch" where
  "join_match m1 m2 =
     (case m1 of (w1, g1, t1) \<Rightarrow> case m2 of (w2, g2, t2) \<Rightarrow>
        (w1 @ w2, (case g2 of None \<Rightarrow> g1 | Some g \<Rightarrow> Some g), t2))"

fun matches :: "bool \<Rightarrow> regex \<Rightarrow> string \<Rightarrow> rmatch list" where
  "matches ic (Lit l) s =
     (if length l \<le> length s \<and> same_text ic l (take (length l) s)
      then [(take (length l) s, None, drop (length l) s)] else [])"
| "matches ic (Star p) s = splits_at s (rev [0..<Suc (length (takeWhile p s))])"
| "matches ic (StarLazy p) s = splits_at s [0..<Suc (length (takeWhile p s))]"
| "matches ic (Plus p) s = splits_at s (rev [1..<Suc (length (takeWhile p s))])"
| "matches ic (Opt r) s = matches ic r s @ [([], None, s)]"
| "matches ic (Group r) s = map (\<lambda>(w, g, t). (w, Some w, t)) (matches ic r s)"
| "matches ic (Seq r1 r2) s =
     concat (map (\<lambda>m1. map (join_match m1) (matches ic r2 (snd (snd m1)))) (matches ic r1 s))"

text \<open>\<open>re.search\<close>: the first match at the leftmost position that has one.\<close>

fun re_search :: "bool \<Rightarrow> regex \<Rightarrow> string \<Rightarrow> (string \<times> string option) option" where
  "re_search ic r [] =
     (case matches ic r [] of [] \<Rightarrow> None | (w, g, t) # _ \<Rightarrow> Some (w, g))"
| "re_search ic r (c # cs) =
     (case matches ic r (c # cs) of [] \<Rightarrow> re_search ic r cs | (w, g, t) # _ \<Rightarrow> Some (w, g))"

text \<open>
  \<open>re.findall\<close> for a pattern with one group: group 1 of each match, scanning left to right
  and resuming where the previous match ended (\<open>skip\<close> counts the characters of that match
  still to pass). A group that took no part reads as the empty string.
\<close>

fun findall_from :: "nat \<Rightarrow> bool \<Rightarrow> regex \<Rightarrow> string \<Rightarrow> string list" where
  "findall_from skip ic r [] =
     (case matches ic r [] of
        [] \<Rightarrow> []
      | (w, g, t) # _ \<Rightarrow> if skip = 0 then [case g of None \<Rightarrow> [] | Some x \<Rightarrow> x] else [])"
| "findall_from (Suc k) ic r (c # cs) = findall_from k ic r cs"
| "findall_from 0 ic r (c # cs) =
     (case matches ic r (c # cs) of
        [] \<Rightarrow> findall_from 0 ic r cs
      | (w, g, t) # _ \<Rightarrow>
          (case g of None \<Rightarrow> [] | Some x \<Rightarrow> x) # findall_from (length w - 1) ic r cs)"

definition re_findall :: "bool \<Rightarrow> regex \<Rightarrow> string \<Rightarrow> string list" where
  "re_findall ic r s = findall_from 0 ic r s"

subsection \<open>Score extraction\<close>

record scores =
  reach :: int
  engagement :: int
  virality :: int
  weighted_total :: int

text \<open>\<open>algorithm_response.replace("**", "")\<close>: occurrences are removed left to right.\<close>

fun strip_bold :: "string \<Rightarrow> string" where
  "strip_bold (a # b # cs) =
     (if a = CHR ''*'' \<and> b = CHR ''*'' then strip_bold cs else a # strip_bold (b # cs))"
| "strip_bold cs = cs"

text \<open>\<open>(\d+(?:\.\d+)?)\<close>\<close>

definition number_rx :: regex where
  "number_rx = Group (Seq (Plus digit) (Opt (Seq (Lit ''.'') (Plus digit))))"

text \<open>\<open>Reach\s*Score\D*?(\d+(?:\.\d+)?)\<close>, and the same for Engagement and Virality.\<close>

definition simple_pattern :: "string \<Rightarrow> regex" where
  "simple_pattern label =
     Seq (Lit label) (Seq (Star space) (Seq (Lit ''Score'')
       (Seq (StarLazy (\<lambda>c. \<not> digit c)) number_rx)))"

text \<open>\<open>Weighted\s*Total[^\n]+\<close>\<close>

definition weighted_total_rx :: regex where
  "weighted_total_rx =
     Seq (Lit ''Weighted'') (Seq (Star space) (Seq (Lit ''Total'')
       (Plus (\<lambda>c. c \<noteq> CHR 0x0A))))"

text \<open>\<open>(\d+(?:\.\d+)?)\s*/\s*100\<close>\<close>

definition slash100_rx :: regex where
  "slash100_rx =
     Seq number_rx (Seq (Star space) (Seq (Lit ''/'') (Seq (Star space) (Lit ''100''))))"

text \<open>\<open>float(match.group(1))\<close> raises \<open>TypeError\<close> on a group that took no part.\<close>

definition group_score :: "string \<times> string option \<Rightarrow> error + int" where
  "group_score m = (case snd m of None \<Rightarrow> Inl TypeError | Some g \<Rightarrow> score_of g)"

definition simple_score :: "string \<Rightarrow> string \<Rightarrow> error + int" where
  "simple_score label clean =
     (case re_search True (simple_pattern label) clean of
        None \<Rightarrow> Inr 50
      | Some m \<Rightarrow> group_score m)"

text \<open>\<open>str.rfind\<close>: the index of the last occurrence, or \<open>-1\<close>.\<close>

fun rfind :: "string \<Rightarrow> char \<Rightarrow> int" where
  "rfind [] x = - 1"
| "rfind (c # cs) x =
     (let i = rfind cs x in if 0 \<le> i then i + 1 else if c = x then 0 else - 1)"

definition weighted_total_score :: "string \<Rightarrow> error + int" where
  "weighted_total_score clean =
     (case re_search True weighted_total_rx clean of
        None \<Rightarrow> Inr 50
      | Some wt_match \<Rightarrow>
          (let wt_line = fst wt_match in
           case re_search False slash100_rx wt_line of
             Some score_match \<Rightarrow> group_score score_match
           | None \<Rightarrow>
               (let last_eq = rfind wt_line (CHR ''='') in
                if last_eq \<noteq> - 1 then
                  (let after_eq = drop (nat last_eq) wt_line;
                       nums = re_findall False number_rx after_eq
                   in if nums \<noteq> [] then score_of (last nums) else Inr 50)
                else
                  (case re_search False number_rx wt_line of
                     Some num_match \<Rightarrow> group_score num_match
                   | None \<Rightarrow> Inr 50))))"

definition extract_scores :: "string \<Rightarrow> error + scores" where
  "extract_scores algorithm_response =
     (let clean = strip_bold algorithm_response in
      bind_result (simple_score ''Reach'' clean) (\<lambda>r.
      bind_result (simple_score ''Engagement'' clean) (\<lambda>e.
      bind_result (simple_score ''Virality'' clean) (\<lambda>v.
      bind_result (weighted_total_score clean) (\<lambda>w.
      Inr \<lparr>reach = r, engagement = e, virality = v, weighted_total = w\<rparr>)))))"

subsection \<open>Rubric store\<close>

text \<open>
  \<open>PLATFORM_RULES\<close> is a dictionary in source order; a weight is the binary64 value of its
  literal. Characters outside ASCII in a description are kept as their UTF-8 bytes; nothing
  below looks inside a description.
\<close>

record criterion =
  weight :: pyfloat
  criterion_description :: string

record rules =
  description :: string
  format_hint :: string
  criteria :: "(string \<times> criterion) list"

definition float_literal :: "string \<Rightarrow> pyfloat" where
  "float_literal s = rn (decimal_value s)"

definition PLATFORMS :: "string list" where
  "PLATFORMS = [''TikTok'', ''Twitter/X'', ''YouTube'', ''Instagram'']"

definition TikTok_rules :: rules where
  "TikTok_rules =
     \<lparr>description = ''Short-form video platform driven by the For You Page algorithm'',
      format_hint = ''Short-form video (15-60s), vertical, with trending audio'',
      criteria =
        [(''hook_strength'',
         \<lparr>weight = float_literal ''0.30'',
          criterion_description =
            ''How strong is the opening hook? TikTok'' @
            [CHR 0x27] @
            ''s algorithm measures retention in the first 1-3 seconds. A weak hook kills distribution.''\<rparr>),
         (''trend_alignment'',
         \<lparr>weight = float_literal ''0.25'',
          criterion_description =
            ''Does the content ride a current trend, sound, or format? The FYP algorithm boosts content that matches trending signals.''\<rparr>),
         (''shareability'',
         \<lparr>weight = float_literal ''0.20'',
          criterion_description =
            ''Would viewers send this to a friend or duet/stitch it? Shares are the highest-weight engagement signal on TikTok.''\<rparr>),
         (''hashtag_strategy'',
         \<lparr>weight = float_literal ''0.15'',
          criterion_description =
            ''Are hashtags relevant and discoverable? Mixing niche and broad hashtags helps the algorithm classify and distribute content.''\<rparr>),
         (''audio_reference'',
         \<lparr>weight = float_literal ''0.10'',
          criterion_description =
            ''Does the post reference or suggest a trending audio? TikTok'' @
            [CHR 0x27] @
            ''s algorithm clusters content by audio for distribution.''\<rparr>)]\<rparr>"

definition Twitter_X_rules :: rules where
  "Twitter_X_rules =
     \<lparr>description = ''Text-first microblogging platform driven by engagement velocity'',
      format_hint = ''Tweet or thread, hot takes, quote-retweet bait'',
      criteria =
        [(''hot_take_factor'',
         \<lparr>weight = float_literal ''0.30'',
          criterion_description =
            ''Does the post have a strong, polarising, or surprising opinion? Twitter/X rewards engagement velocity '' @
            [CHR 0xE2, CHR 0x80, CHR 0x94] @
            '' hot takes drive replies.''\<rparr>),
         (''quote_retweet_bait'',
         \<lparr>weight = float_literal ''0.25'',
          criterion_description =
            ''Is the post structured to invite quote retweets? QRTs are Twitter/X'' @
            [CHR 0x27] @
            ''s most powerful distribution mechanic.''\<rparr>),
         (''timing_relevance'',
         \<lparr>weight = float_literal ''0.20'',
          criterion_description =
            ''Is this posted at the right moment? Twitter/X'' @
            [CHR 0x27] @
            ''s algorithm heavily weights recency and real-time relevance.''\<rparr>),
         (''thread_potential'',
         \<lparr>weight = float_literal ''0.15'',
          criterion_description =
            ''Could this expand into a thread? Threads increase time-on-post and signal depth to the algorithm.''\<rparr>),
         (''hashtag_strategy'',
         \<lparr>weight = float_literal ''0.10'',
          criterion_description =
            ''Are hashtags used sparingly and strategically? Over-hashtagging on Twitter/X reduces credibility and reach.''\<rparr>)]\<rparr>"

definition YouTube_rules :: rules where
  "YouTube_rules =
     \<lparr>description = ''Long and short-form video platform driven by watch time and CTR'',
      format_hint = ''Video (Shorts or long-form), strong thumbnail + title'',
      criteria =
        [(''thumbnail_clickability'',
         \<lparr>weight = float_literal ''0.25'',
          criterion_description =
            ''Would the suggested thumbnail stop a scroll? YouTube'' @
            [CHR 0x27] @
            ''s algorithm uses click-through rate as a primary ranking signal.''\<rparr>),
         (''title_curiosity_gap'',
         \<lparr>weight = float_literal ''0.25'',
          criterion_description =
            ''Does the title create curiosity without being pure clickbait? The algorithm balances CTR against viewer satisfaction.''\<rparr>),
         (''watch_time_potential'',
         \<lparr>weight = float_literal ''0.20'',
          criterion_description =
            ''Will viewers watch most of the video? Average view duration is YouTube'' @
            [CHR 0x27] @
            ''s strongest ranking signal.''\<rparr>),
         (''seo_optimization'',
         \<lparr>weight = float_literal ''0.15'',
          criterion_description =
            ''Are keywords, tags, and description optimised for search? YouTube is the world'' @
            [CHR 0x27] @
            ''s second-largest search engine.''\<rparr>),
         (''community_engagement'',
         \<lparr>weight = float_literal ''0.15'',
          criterion_description =
            ''Does the content encourage comments and likes? Engagement rate signals quality to YouTube'' @
            [CHR 0x27] @
            ''s recommendation system.''\<rparr>)]\<rparr>"

definition Instagram_rules :: rules where
  "Instagram_rules =
     \<lparr>description = ''Visual-first platform driven by saves, shares, and Explore page'',
      format_hint = ''Reel, carousel, or single image with strong caption'',
      criteria =
        [(''visual_appeal'',
         \<lparr>weight = float_literal ''0.30'',
          criterion_description =
            ''Is the visual content eye-catching and high quality? Instagram'' @
            [CHR 0x27] @
            ''s algorithm prioritises posts that generate saves and long views.''\<rparr>),
         (''caption_hook'',
         \<lparr>weight = float_literal ''0.20'',
          criterion_description =
            ''Does the caption hook in the first line (before '' @
            [CHR 0x27] @
            ''more'' @
            [CHR 0x27] @
            '')? Caption engagement drives the algorithm'' @
            [CHR 0x27] @
            ''s interest scoring.''\<rparr>),
         (''carousel_potential'',
         \<lparr>weight = float_literal ''0.20'',
          criterion_description =
            ''Could this be a swipeable carousel? Carousels get re-served by the algorithm when users didn'' @
            [CHR 0x27] @
            ''t swipe through all slides.''\<rparr>),
         (''hashtag_reach'',
         \<lparr>weight = float_literal ''0.15'',
          criterion_description =
            ''Is there a mix of niche and popular hashtags (20-30 range)? Instagram uses hashtags to classify content for Explore.''\<rparr>),
         (''story_crosspost'',
         \<lparr>weight = float_literal ''0.15'',
          criterion_description =
            ''Is this structured to also work as a Story or Reel? Cross-format posting increases total distribution surface.''\<rparr>)]\<rparr>"

definition PLATFORM_RULES :: "(string \<times> rules) list" where
  "PLATFORM_RULES =
     [(''TikTok'', TikTok_rules), (''Twitter/X'', Twitter_X_rules),
      (''YouTube'', YouTube_rules), (''Instagram'', Instagram_rules)]"

text \<open>\<open>d[k]\<close> raises \<open>KeyError\<close> on a missing key.\<close>

definition dict_item :: "(string \<times> 'v) list \<Rightarrow> string \<Rightarrow> error + 'v" where
  "dict_item d k = (case map_of d k of None \<Rightarrow> Inl (KeyError k) | Some v \<Rightarrow> Inr v)"

text \<open>
  Float product and sum, and \<open>int(x)\<close>. A product with infinity is infinity here: the one
  product taken is by 100, so infinity times zero does not arise.
\<close>

fun py_mul :: "pyfloat \<Rightarrow> pyfloat \<Rightarrow> pyfloat" where
  "py_mul (Finite a) (Finite b) = rn (a * b)"
| "py_mul _ _ = Infinity"

fun py_add :: "pyfloat \<Rightarrow> pyfloat \<Rightarrow> pyfloat" where
  "py_add (Finite a) (Finite b) = rn (a + b)"
| "py_add _ _ = Infinity"

fun py_int :: "pyfloat \<Rightarrow> error + int" where
  "py_int (Finite x) = Inr \<lfloor>x\<rfloor>"
| "py_int Infinity = Inl OverflowError"

text \<open>A weight in \<open>[0, 1]\<close>.\<close>

fun unit_weight :: "pyfloat \<Rightarrow> bool" where
  "unit_weight (Finite w) = (0 \<le> w \<and> w \<le> 1)"
| "unit_weight Infinity = False"

text \<open>\<open>sum(ws)\<close> over floats: left to right from 0.\<close>

definition py_sum :: "pyfloat list \<Rightarrow> pyfloat" where
  "py_sum ws = foldl py_add (Finite 0) ws"

text \<open>\<open>str(n)\<close>\<close>

function str_digits :: "nat \<Rightarrow> string" where
  "str_digits n =
     (if n < 10 then [''0123456789'' ! n]
      else str_digits (n div 10) @ [''0123456789'' ! (n mod 10)])"
  by pat_completeness auto
termination
  by (relation "measure id") auto

definition str_int :: "int \<Rightarrow> string" where
  "str_int i = (if i < 0 then CHR ''-'' # str_digits (nat (- i)) else str_digits (nat i))"

text \<open>\<open>"\n".join(lines)\<close>\<close>

fun join_lines :: "string list \<Rightarrow> string" where
  "join_lines [] = []"
| "join_lines [l] = l"
| "join_lines (l # ls) = l @ CHR 0x0A # join_lines ls"

fun map_result :: "('a \<Rightarrow> error + 'b) \<Rightarrow> 'a list \<Rightarrow> error + 'b list" where
  "map_result f [] = Inr []"
| "map_result f (x # xs) =
     bind_result (f x) (\<lambda>y. bind_result (map_result f xs) (\<lambda>ys. Inr (y # ys)))"

definition criterion_line :: "string \<times> criterion \<Rightarrow> error + string" where
  "criterion_line item =
     (case item of (name, info) \<Rightarrow>
        bind_result (py_int (py_mul (weight info) (Finite 100))) (\<lambda>weight_pct.
          Inr (''- '' @ name @ '' ('' @ str_int weight_pct @ ''%): ''
               @ criterion_description info)))"

definition build_scoring_rubric :: "string \<Rightarrow> error + string" where
  "build_scoring_rubric platform =
     bind_result (dict_item PLATFORM_RULES platform) (\<lambda>rules.
       bind_result (map_result criterion_line (criteria rules)) (\<lambda>criteria_lines.
         Inr (join_lines
           ([''Platform: '' @ platform, ''Description: '' @ description rules, [],
             ''Scoring Criteria (use these exact weights):''] @ criteria_lines))))"

subsection \<open>Trend source\<close>

text \<open>
  \<open>live\<close> is what the import of the trend library and its \<open>trending_now\<close> call give: a list
  of trends, or the exception they raise. \<open>file\<close> is \<open>sample_trends.json\<close> as the module
  finds it beside itself when it loads it: absent, not JSON, JSON without the key
  \<open>"trends"\<close>, or JSON with a list of strings under that key.
\<close>

datatype sample_file = Missing | Malformed | NoTrends | Trends "string list"

record trend =
  keyword :: string
  topics :: "nat list option"

definition GAMES_TOPIC_ID :: nat where
  "GAMES_TOPIC_ID = 6"

definition gaming_keywords :: "string list" where
  "gaming_keywords =
     [''game'', ''gaming'', ''gamer'', ''esport'', ''playstation'', ''xbox'',
      ''nintendo'', ''steam'', ''twitch'', ''fortnite'', ''valorant'', ''league'',
      ''minecraft'', ''roblox'', ''cod'', ''warzone'', ''apex'', ''zelda'',
      ''mario'', ''pokemon'', ''gta'', ''elden'', ''final fantasy'', ''ps5'',
      ''ps6'', ''switch'', ''gpu'', ''rtx'', ''dlc'']"

text \<open>\<open>kw in s\<close> on strings, and \<open>xs[:count]\<close> with Python's reading of a negative bound.\<close>

fun is_substring :: "string \<Rightarrow> string \<Rightarrow> bool" where
  "is_substring kw [] = (kw = [])"
| "is_substring kw (c # cs) = (take (length kw) (c # cs) = kw \<or> is_substring kw cs)"

definition slice_to :: "'a list \<Rightarrow> int \<Rightarrow> 'a list" where
  "slice_to xs count =
     (if 0 \<le> count then take (nat count) xs else take (nat (int (length xs) + count)) xs)"

text \<open>
  \<open>_load_sample_trends\<close>: \<open>open\<close> raises on an absent file, \<open>json.load\<close> on text that is not
  JSON, and \<open>data["trends"]\<close> on a missing key.
\<close>

definition load_sample_trends :: "sample_file \<Rightarrow> error + string list" where
  "load_sample_trends file =
     (case file of
        Missing \<Rightarrow> Inl FileNotFoundError
      | Malformed \<Rightarrow> Inl JSONDecodeError
      | NoTrends \<Rightarrow> Inl (KeyError ''trends'')
      | Trends sample \<Rightarrow> Inr sample)"

text \<open>The body of the \<open>try\<close> block.\<close>

definition fetch_live :: "error + trend list \<Rightarrow> sample_file \<Rightarrow> int \<Rightarrow> error + string list" where
  "fetch_live live file count =
     bind_result live (\<lambda>all_trends.
       let gaming_trends =
             map keyword (filter (\<lambda>t. GAMES_TOPIC_ID \<in> set (case topics t of None \<Rightarrow> [] | Some ts \<Rightarrow> ts))
                            all_trends)
       in if 5 \<le> length gaming_trends then Inr (slice_to gaming_trends count)
          else
            let keyword_matches =
                  map keyword
                    (filter (\<lambda>t. keyword t \<notin> set gaming_trends
                               \<and> list_ex (\<lambda>kw. is_substring kw (map lower (keyword t))) gaming_keywords)
                       all_trends);
                gaming_trends = gaming_trends @ keyword_matches
            in if 5 \<le> length gaming_trends then Inr (slice_to gaming_trends count)
               else
                 bind_result (load_sample_trends file) (\<lambda>sample.
                   let combined = gaming_trends @ filter (\<lambda>t. t \<notin> set gaming_trends) sample
                   in Inr (slice_to combined count)))"

text \<open>
  The \<open>except Exception\<close> handler answers every exception of the body by loading the sample
  file itself; nothing guards that call, so what it raises reaches the caller.
\<close>

definition fetch_gaming_trends :: "error + trend list \<Rightarrow> sample_file \<Rightarrow> int \<Rightarrow> error + string list" where
  "fetch_gaming_trends live file count =
     (case fetch_live live file count of
        Inl e \<Rightarrow> bind_result (load_sample_trends file) (\<lambda>sample. Inr (slice_to sample count))
      | Inr found \<Rightarrow> Inr found)"

subsection \<open>Round loop\<close>

text \<open>
  The three agents answer through the language-model backend. \<open>backend k agent message\<close> is
  the outcome of the call made after \<open>k\<close> earlier calls: the reply, or the exception the call
  raises. A message keeps the parts of its prompt that change from round to round; topic,
  platform, persona and rubric are fixed for the session. \<open>ask i\<close> is what the player answers
  to the prompt shown after round \<open>i\<close>.
\<close>

datatype agent = Creator | Algorithm | Audience

datatype message =
    CreatorPrompt
  | RevisionPrompt nat string string
  | AlgorithmPrompt string
  | AudiencePrompt string

record game =
  creator_response :: string
  algorithm_response :: string
  audience_response :: string
  round_scores :: "scores option"
  calls :: "(agent \<times> message) list"

definition MAX_ITERATIONS :: nat where
  "MAX_ITERATIONS = 3"

definition initial_game :: game where
  "initial_game =
     \<lparr>creator_response = [], algorithm_response = [], audience_response = [],
      round_scores = None, calls = []\<rparr>"

definition get_agent_response ::
  "(nat \<Rightarrow> agent \<Rightarrow> message \<Rightarrow> error + string) \<Rightarrow> agent \<Rightarrow> message \<Rightarrow> game \<Rightarrow> error + string \<times> game" where
  "get_agent_response backend a msg st =
     bind_result (backend (length (calls st)) a msg) (\<lambda>reply.
       Inr (reply, st\<lparr>calls := calls st @ [(a, msg)]\<rparr>))"

text \<open>The body of the \<open>while\<close> loop up to the score summary, for round \<open>iteration\<close>.\<close>

definition play_round ::
  "(nat \<Rightarrow> agent \<Rightarrow> message \<Rightarrow> error + string) \<Rightarrow> nat \<Rightarrow> game \<Rightarrow> error + game" where
  "play_round backend iteration st =
     bind_result
       (get_agent_response backend Creator
          (if iteration = 1 then CreatorPrompt
           else RevisionPrompt iteration (algorithm_response st) (audience_response st)) st)
       (\<lambda>(creator_reply, st1).
     bind_result (get_agent_response backend Algorithm (AlgorithmPrompt creator_reply) st1)
       (\<lambda>(algorithm_reply, st2).
     bind_result (get_agent_response backend Audience (AudiencePrompt creator_reply) st2)
       (\<lambda>(audience_reply, st3).
     bind_result (extract_scores algorithm_reply)
       (\<lambda>sc. Inr (st3\<lparr>creator_response := creator_reply,
                        algorithm_response := algorithm_reply,
                        audience_response := audience_reply,
                        round_scores := Some sc\<rparr>)))))"

function game_loop ::
  "(nat \<Rightarrow> agent \<Rightarrow> message \<Rightarrow> error + string) \<Rightarrow> (nat \<Rightarrow> string) \<Rightarrow> nat \<Rightarrow> game \<Rightarrow> error + nat \<times> game" where
  "game_loop backend ask iteration st =
     (if iteration < MAX_ITERATIONS then
        (case play_round backend (iteration + 1) st of
           Inl e \<Rightarrow> Inl e
         | Inr st' \<Rightarrow>
             if iteration + 1 < MAX_ITERATIONS then
               (if ask (iteration + 1) = ''2'' then Inr (iteration + 1, st')
                else game_loop backend ask (iteration + 1) st')
             else game_loop backend ask (iteration + 1) st')
      else Inr (iteration, st))"
  by pat_completeness auto
termination
  by (relation "measure (\<lambda>(backend, ask, iteration, st). MAX_ITERATIONS - iteration)") auto

text \<open>What \<open>display_scorecard\<close> is called with.\<close>

record scorecard =
  shown_reach :: int
  shown_engagement :: int
  shown_virality :: int
  shown_weighted_total :: int
  iterations_used :: nat

definition final_scorecard :: "nat \<Rightarrow> game \<Rightarrow> scorecard" where
  "final_scorecard iteration st =
     \<lparr>shown_reach = (case round_scores st of None \<Rightarrow> 50 | Some sc \<Rightarrow> reach sc),
      shown_engagement = (case round_scores st of None \<Rightarrow> 50 | Some sc \<Rightarrow> engagement sc),
      shown_virality = (case round_scores st of None \<Rightarrow> 50 | Some sc \<Rightarrow> virality sc),
      shown_weighted_total = (case round_scores st of None \<Rightarrow> 50 | Some sc \<Rightarrow> weighted_total sc),
      iterations_used = iteration\<rparr>"

definition run_rounds ::
  "(nat \<Rightarrow> agent \<Rightarrow> message \<Rightarrow> error + string) \<Rightarrow> (nat \<Rightarrow> string) \<Rightarrow> error + scorecard \<times> game" where
  "run_rounds backend ask =
     (case game_loop backend ask 0 initial_game of
        Inl e \<Rightarrow> Inl e
      | Inr (iteration, st) \<Rightarrow> Inr (final_scorecard iteration st, st))"

subsection \<open>What the patterns find, written without patterns\<close>

text \<open>
  The results below state what each search of the extractor returns in terms of these
  functions on text.

  \<open>take_number s\<close>, for \<open>s\<close> that starts with a digit: the digits at the start of \<open>s\<close>, and the
  fraction after them when a point and a digit follow.
\<close>

definition take_number :: "string \<Rightarrow> string" where
  "take_number s =
     (let ip = takeWhile digit s; r = dropWhile digit s
      in case r of
           c # d # u \<Rightarrow> if c = CHR ''.'' \<and> digit d then ip @ c # takeWhile digit (d # u) else ip
         | _ \<Rightarrow> ip)"

definition first_number :: "string \<Rightarrow> string option" where
  "first_number s =
     (case dropWhile (\<lambda>c. \<not> digit c) s of [] \<Rightarrow> None | d # ds \<Rightarrow> Some (take_number (d # ds)))"

text \<open>The numbers of a text, left to right, none overlapping.\<close>

function numbers :: "string \<Rightarrow> string list" where
  "numbers s =
     (case dropWhile (\<lambda>c. \<not> digit c) s of
        [] \<Rightarrow> []
      | d # ds \<Rightarrow> take_number (d # ds) # numbers (drop (length (take_number (d # ds))) (d # ds)))"
  by pat_completeness auto
termination
proof (relation "measure length", goal_cases)
  case 1
  show ?case by simp
next
  case (2 s d ds)
  have "digit d"
    using 2 hd_dropWhile [of "\<lambda>c. \<not> digit c" s] by auto
  then have "take_number (d # ds) \<noteq> []"
    by (auto simp: take_number_def Let_def split: list.splits)
  then have "length (drop (length (take_number (d # ds))) (d # ds)) < length (d # ds)"
    by (cases "take_number (d # ds)") auto
  moreover have "length (d # ds) \<le> length s"
    using 2 length_dropWhile_le [of "\<lambda>c. \<not> digit c" s] by simp
  ultimately show ?case by simp
qed

definition starts_with :: "bool \<Rightarrow> string \<Rightarrow> string \<Rightarrow> bool" where
  "starts_with ic l s = (length l \<le> length s \<and> same_text ic l (take (length l) s))"

text \<open>
  A label at the start of \<open>s\<close>: its first word, any white space, its second word, in any
  case. The result is the label as written and the text after it.
\<close>

definition split_label :: "string \<Rightarrow> string \<Rightarrow> string \<Rightarrow> (string \<times> string) option" where
  "split_label l1 l2 s =
     (if starts_with True l1 s
      then let t = dropWhile space (drop (length l1) s)
           in if starts_with True l2 t
              then Some (take (length l1) s @ takeWhile space (drop (length l1) s) @ take (length l2) t,
                         drop (length l2) t)
              else None
      else None)"

text \<open>The first way a pattern matches at the start of a text, if there is one.\<close>

definition first_match :: "bool \<Rightarrow> regex \<Rightarrow> string \<Rightarrow> rmatch option" where
  "first_match ic r s = (case matches ic r s of [] \<Rightarrow> None | m # ms \<Rightarrow> Some m)"

definition prepend :: "string \<Rightarrow> rmatch \<Rightarrow> rmatch" where
  "prepend w1 m = (case m of (w, g, t) \<Rightarrow> (w1 @ w, g, t))"

text \<open>The text after the first occurrence of a label.\<close>

fun after_first_label :: "string \<Rightarrow> string \<Rightarrow> string \<Rightarrow> string option" where
  "after_first_label l1 l2 [] = map_option snd (split_label l1 l2 [])"
| "after_first_label l1 l2 (c # cs) =
     (case split_label l1 l2 (c # cs) of
        Some (w, t) \<Rightarrow> Some t
      | None \<Rightarrow> after_first_label l1 l2 cs)"

text \<open>
  The weighted-total line: at the first occurrence of the label that has a character other
  than a line break right after it, the label and the rest of that line.
\<close>

definition label_line_at :: "string \<Rightarrow> string option" where
  "label_line_at s =
     (case split_label ''Weighted'' ''Total'' s of
        None \<Rightarrow> None
      | Some (w, t) \<Rightarrow>
          if takeWhile (\<lambda>c. c \<noteq> CHR 0x0A) t = [] then None
          else Some (w @ takeWhile (\<lambda>c. c \<noteq> CHR 0x0A) t))"

fun label_line :: "string \<Rightarrow> string option" where
  "label_line [] = label_line_at []"
| "label_line (c # cs) =
     (case label_line_at (c # cs) of Some l \<Rightarrow> Some l | None \<Rightarrow> label_line cs)"

text \<open>
  The first number of a text that is followed by \<open>/100\<close>, white space allowed on both sides
  of the stroke. The number is read from each position in turn, so it may begin inside a
  longer run of digits and points.
\<close>

definition slash100_follows :: "string \<Rightarrow> bool" where
  "slash100_follows t =
     (case dropWhile space t of
        [] \<Rightarrow> False
      | c # u \<Rightarrow> c = CHR ''/'' \<and> starts_with False ''100'' (dropWhile space u))"

fun slash100_number :: "string \<Rightarrow> string option" where
  "slash100_number [] = None"
| "slash100_number (c # cs) =
     (if digit c \<and> slash100_follows (drop (length (take_number (c # cs))) (c # cs))
      then Some (take_number (c # cs))
      else slash100_number cs)"

definition after_last :: "char \<Rightarrow> string \<Rightarrow> string" where
  "after_last x s = rev (takeWhile (\<lambda>c. c \<noteq> x) (rev s))"

text \<open>The weighted total read from the weighted-total line \<open>L\<close>.\<close>

definition line_total :: "string \<Rightarrow> error + int" where
  "line_total L =
     (case slash100_number L of
        Some tok \<Rightarrow> score_of tok
      | None \<Rightarrow>
          if CHR ''='' \<in> set L then
            (case numbers (after_last (CHR ''='') L) of
               [] \<Rightarrow> Inr 50
             | n # ns \<Rightarrow> score_of (last (n # ns)))
          else
            (case first_number L of None \<Rightarrow> Inr 50 | Some tok \<Rightarrow> score_of tok))"

text \<open>
  The number a simple label leads to: the first number after the first occurrence of the
  label. A field is the score of its number, or stays 50 when there is none.
\<close>

definition number_after_label :: "string \<Rightarrow> string \<Rightarrow> string option" where
  "number_after_label label clean =
     (case after_first_label label ''Score'' clean of None \<Rightarrow> None | Some t \<Rightarrow> first_number t)"

definition token_score :: "string option \<Rightarrow> error + int" where
  "token_score x = (case x of None \<Rightarrow> Inr 50 | Some tok \<Rightarrow> score_of tok)"

subsection \<open>The weighted total as the specification words it\<close>






section \<open>Results\<close>

subsection \<open>Floats\<close>

lemma pow2_powi: "pow2 k = 2 powi k"
  by (simp add: pow2_def power_int_def power_inverse [symmetric] inverse_eq_divide power_one_over)

lemma pow2_pos: "0 < pow2 k"
  by (simp add: pow2_def)

lemma pow2_add: "pow2 (a + b) = pow2 a * pow2 b"
  by (simp add: pow2_powi power_int_add)

lemma pow2_less_iff: "pow2 a < pow2 b \<longleftrightarrow> a < b"
proof
  assume "a < b"
  then show "pow2 a < pow2 b"
    unfolding pow2_powi by (intro power_int_strict_increasing) auto
next
  assume lt: "pow2 a < pow2 b"
  show "a < b"
  proof (rule ccontr)
    assume "\<not> a < b"
    then have "b \<le> a" by simp
    then have "pow2 b \<le> pow2 a"
      unfolding pow2_powi by (intro power_int_increasing) auto
    with lt show False by simp
  qed
qed

lemma pow2_nat: "pow2 (int n) = 2 ^ n"
  by (simp add: pow2_def)

lemma ilog2_bounds:
  assumes "0 < x"
  shows "pow2 (ilog2 x) \<le> x \<and> x < pow2 (ilog2 x + 1)"
proof (cases "1 \<le> x")
  case True
  define f where "f = \<lfloor>x\<rfloor>"
  have f: "0 < f" using True by (simp add: f_def)
  have b: "2 ^ nat (bitlen f - 1) \<le> f" "f < 2 ^ nat (bitlen f)"
    using bitlen_bounds [OF f] by auto
  have bl: "1 \<le> bitlen f" using f by (simp add: bitlen_ge_iff_power)
  have e: "ilog2 x = bitlen f - 1" using True by (simp add: ilog2_def f_def)
  have "(of_int (2 ^ nat (bitlen f - 1)) :: rat) \<le> of_int f"
    using b(1) by (simp only: of_int_le_iff)
  then have "(2 ^ nat (bitlen f - 1) :: rat) \<le> of_int f" by simp
  also have "\<dots> \<le> x" by (simp add: f_def)
  finally have lo: "pow2 (ilog2 x) \<le> x"
    using bl by (simp add: e pow2_def)
  have "f + 1 \<le> 2 ^ nat (bitlen f)" using b(2) by simp
  then have "(of_int (f + 1) :: rat) \<le> of_int (2 ^ nat (bitlen f))"
    by (simp only: of_int_le_iff)
  then have "(of_int (f + 1) :: rat) \<le> 2 ^ nat (bitlen f)" by simp
  moreover have "x < of_int (f + 1)" using floor_correct [of x] by (simp add: f_def)
  ultimately have "x < 2 ^ nat (bitlen f)" by linarith
  then have hi: "x < pow2 (ilog2 x + 1)"
    using bl by (simp add: e pow2_def)
  show ?thesis using lo hi by simp
next
  case False
  then have x1: "x < 1" by simp
  define c where "c = \<lceil>1 / x\<rceil> - 1"
  have y1: "1 < 1 / x" using assms x1 by (simp add: field_simps)
  have c: "0 < c" using y1 by (simp add: c_def less_ceiling_iff)
  have b: "2 ^ nat (bitlen c - 1) \<le> c" "c < 2 ^ nat (bitlen c)"
    using bitlen_bounds [OF c] by auto
  have bl: "1 \<le> bitlen c" using c by (simp add: bitlen_ge_iff_power)
  have e: "ilog2 x = - bitlen c" using False by (simp add: ilog2_def c_def)
  have "of_int c < 1 / x" using ceiling_correct [of "1 / x"] by (simp add: c_def)
  moreover have "(of_int (2 ^ nat (bitlen c - 1)) :: rat) \<le> of_int c"
    using b(1) by (simp only: of_int_le_iff)
  then have "(2 ^ nat (bitlen c - 1) :: rat) \<le> of_int c" by simp
  ultimately have "(2 ^ nat (bitlen c - 1) :: rat) < 1 / x" by linarith
  then have "x < 1 / 2 ^ nat (bitlen c - 1)"
    using assms by (simp add: field_simps)
  then have hi: "x < pow2 (ilog2 x + 1)"
    using bl by (auto simp add: e pow2_def nat_diff_distrib)
  have "c + 1 \<le> 2 ^ nat (bitlen c)" using b(2) by simp
  then have "(of_int (c + 1) :: rat) \<le> of_int (2 ^ nat (bitlen c))"
    by (simp only: of_int_le_iff)
  then have "(of_int (c + 1) :: rat) \<le> 2 ^ nat (bitlen c)" by simp
  moreover have "1 / x \<le> of_int (c + 1)" using ceiling_correct [of "1 / x"] by (simp add: c_def)
  ultimately have "1 / x \<le> 2 ^ nat (bitlen c)" by linarith
  then have "1 / 2 ^ nat (bitlen c) \<le> x"
    using assms by (simp add: field_simps)
  then have lo: "pow2 (ilog2 x) \<le> x"
    using bl by (simp add: e pow2_def)
  show ?thesis using lo hi by simp
qed

lemma ilog2_unique:
  assumes "0 < x" "pow2 e \<le> x" "x < pow2 (e + 1)"
  shows "ilog2 x = e"
proof -
  have "pow2 (ilog2 x) < pow2 (e + 1)" "pow2 e < pow2 (ilog2 x + 1)"
    using ilog2_bounds [OF assms(1)] assms by auto
  then show ?thesis by (simp add: pow2_less_iff)
qed

lemma round_half_even_of_int: "round_half_even (of_int k) = k"
  by (simp add: round_half_even_def)

lemma round_half_even_ge: "\<lfloor>x\<rfloor> \<le> round_half_even x"
  by (simp add: round_half_even_def Let_def)

lemma rn_eqI:
  assumes "0 < x" "pow2 e \<le> x" "x < pow2 (e + 1)"
    and "round_half_even (x / pow2 (max (e - 52) (- 1074))) = m"
    and "of_int m * pow2 (max (e - 52) (- 1074)) = y" "y < 2 ^ 1024"
  shows "rn x = Finite y"
  using assms by (simp add: rn_def ilog2_unique [OF assms(1-3)] Let_def)

lemma rn_exact:
  assumes "0 < x" "pow2 e \<le> x" "x < pow2 (e + 1)" "- 1022 \<le> e" "e < 1024"
    and "x / pow2 (e - 52) = of_int k"
  shows "rn x = Finite x"
proof (rule rn_eqI [OF assms(1-3)])
  have q: "max (e - 52) (- 1074) = e - 52" using assms(4) by simp
  show "round_half_even (x / pow2 (max (e - 52) (- 1074))) = k"
    by (simp add: q assms(6) round_half_even_of_int)
  have "pow2 (e - 52) \<noteq> 0" using pow2_pos [of "e - 52"] by simp
  then show "of_int k * pow2 (max (e - 52) (- 1074)) = x"
    using assms(6) by (simp add: q field_simps)
  have "pow2 (e + 1) \<le> pow2 1024"
    using assms(5) pow2_less_iff [of 1024 "e + 1"] by (simp add: not_less [symmetric])
  then show "x < 2 ^ 1024"
    using assms(3) by (simp add: pow2_def)
qed

lemma rn_overflow:
  assumes "2 ^ 1024 \<le> x"
  shows "rn x = Infinity"
proof -
  have "(0::rat) < 2 ^ 1024" by simp
  then have x: "0 < x" using assms by linarith
  define e where "e = ilog2 x"
  have b: "pow2 e \<le> x" "x < pow2 (e + 1)" using ilog2_bounds [OF x] by (auto simp: e_def)
  have "pow2 1024 < pow2 (e + 1)" using assms b(2) by (simp add: pow2_def)
  then have e: "1024 \<le> e" by (simp add: pow2_less_iff)
  then have q: "max (e - 52) (- 1074) = e - 52" by simp
  have p: "0 < pow2 (e - 52)" by (rule pow2_pos)
  have "pow2 e = pow2 52 * pow2 (e - 52)" using pow2_add [of 52 "e - 52"] by simp
  then have "pow2 52 \<le> x / pow2 (e - 52)" using b(1) p by (simp add: field_simps)
  then have "(2 ^ 52 :: rat) \<le> x / pow2 (e - 52)" by (simp add: pow2_def)
  then have "(2 ^ 52 :: int) \<le> \<lfloor>x / pow2 (e - 52)\<rfloor>" by (simp add: le_floor_iff)
  then have "(2 ^ 52 :: int) \<le> round_half_even (x / pow2 (e - 52))"
    using round_half_even_ge [of "x / pow2 (e - 52)"] by linarith
  then have "(of_int (2 ^ 52) :: rat) \<le> of_int (round_half_even (x / pow2 (e - 52)))"
    by (simp only: of_int_le_iff)
  then have "pow2 52 * pow2 (e - 52) \<le> of_int (round_half_even (x / pow2 (e - 52))) * pow2 (e - 52)"
    using p by (simp add: pow2_def)
  then have "pow2 e \<le> of_int (round_half_even (x / pow2 (e - 52))) * pow2 (e - 52)"
    using pow2_add [of 52 "e - 52"] by simp
  moreover have "pow2 1024 \<le> pow2 e"
    using e pow2_less_iff [of e 1024] by (simp add: not_less [symmetric])
  ultimately have "2 ^ 1024 \<le> of_int (round_half_even (x / pow2 (e - 52))) * pow2 (e - 52)"
    by (simp add: pow2_def)
  then show ?thesis
    using x by (simp add: rn_def Let_def e_def [symmetric] q)
qed

lemma round_half_even_eqI:
  assumes "of_int m - 1 / 2 < z" "z < of_int m + 1 / 2"
  shows "round_half_even z = m"
proof (cases "of_int m \<le> z")
  case True
  then have "\<lfloor>z\<rfloor> = m" using assms by (intro floor_unique) auto
  then show ?thesis using assms by (simp add: round_half_even_def Let_def)
next
  case False
  then have "\<lfloor>z\<rfloor> = m - 1" using assms by (intro floor_unique) auto
  then show ?thesis using assms False by (simp add: round_half_even_def Let_def)
qed

lemma round_half_even_tie:
  assumes "z = of_int f + 1 / 2"
  shows "round_half_even z = (if even f then f else f + 1)"
proof -
  have "\<lfloor>z\<rfloor> = f" using assms by (intro floor_unique) auto
  then show ?thesis using assms by (simp add: round_half_even_def Let_def)
qed

lemma rn_nearest:
  assumes "0 < x" "pow2 e \<le> x" "x < pow2 (e + 1)"
    and "of_int m - 1 / 2 < x / pow2 (max (e - 52) (- 1074))"
    and "x / pow2 (max (e - 52) (- 1074)) < of_int m + 1 / 2"
    and "of_int m * pow2 (max (e - 52) (- 1074)) = y" "y < 2 ^ 1024"
  shows "rn x = Finite y"
  using assms(4-7) by (intro rn_eqI [OF assms(1-3)] round_half_even_eqI)

lemma rn_tie:
  assumes "0 < x" "pow2 e \<le> x" "x < pow2 (e + 1)"
    and "x / pow2 (max (e - 52) (- 1074)) = of_int f + 1 / 2"
    and "of_int (if even f then f else f + 1) * pow2 (max (e - 52) (- 1074)) = y" "y < 2 ^ 1024"
  shows "rn x = Finite y"
proof (rule rn_eqI [OF assms(1-3)])
  show "round_half_even (x / pow2 (max (e - 52) (- 1074))) = (if even f then f else f + 1)"
    using assms(4) by (rule round_half_even_tie)
qed (use assms(5,6) in auto)

lemma float_literal_030: "float_literal ''0.30'' = Finite (5404319552844595 / 18014398509481984)"
proof -
  have d: "decimal_value ''0.30'' = 3 / 10"
    by (simp add: decimal_value_def digit_def int_of_digits_def digit_val_def)
  have r: "rn (3 / 10) = Finite (5404319552844595 / 18014398509481984)"
    by (rule rn_nearest [where e = "- 2" and m = 5404319552844595]) (simp_all add: pow2_def)
  show ?thesis unfolding float_literal_def d by (rule r)
qed

lemma float_literal_025: "float_literal ''0.25'' = Finite (1 / 4)"
proof -
  have d: "decimal_value ''0.25'' = 1 / 4"
    by (simp add: decimal_value_def digit_def int_of_digits_def digit_val_def)
  have r: "rn (1 / 4) = Finite (1 / 4)"
    by (rule rn_exact [where e = "- 2" and k = 4503599627370496]) (simp_all add: pow2_def)
  show ?thesis unfolding float_literal_def d by (rule r)
qed

lemma float_literal_020: "float_literal ''0.20'' = Finite (3602879701896397 / 18014398509481984)"
proof -
  have d: "decimal_value ''0.20'' = 1 / 5"
    by (simp add: decimal_value_def digit_def int_of_digits_def digit_val_def)
  have r: "rn (1 / 5) = Finite (3602879701896397 / 18014398509481984)"
    by (rule rn_nearest [where e = "- 3" and m = 7205759403792794]) (simp_all add: pow2_def)
  show ?thesis unfolding float_literal_def d by (rule r)
qed

lemma float_literal_015: "float_literal ''0.15'' = Finite (5404319552844595 / 36028797018963968)"
proof -
  have d: "decimal_value ''0.15'' = 3 / 20"
    by (simp add: decimal_value_def digit_def int_of_digits_def digit_val_def)
  have r: "rn (3 / 20) = Finite (5404319552844595 / 36028797018963968)"
    by (rule rn_nearest [where e = "- 3" and m = 5404319552844595]) (simp_all add: pow2_def)
  show ?thesis unfolding float_literal_def d by (rule r)
qed

lemma float_literal_010: "float_literal ''0.10'' = Finite (3602879701896397 / 36028797018963968)"
proof -
  have d: "decimal_value ''0.10'' = 1 / 10"
    by (simp add: decimal_value_def digit_def int_of_digits_def digit_val_def)
  have r: "rn (1 / 10) = Finite (3602879701896397 / 36028797018963968)"
    by (rule rn_nearest [where e = "- 4" and m = 7205759403792794]) (simp_all add: pow2_def)
  show ?thesis unfolding float_literal_def d by (rule r)
qed

lemmas float_literals =
  float_literal_030 float_literal_025 float_literal_020 float_literal_015 float_literal_010

lemma weight_percent_030: "py_int (py_mul (Finite (5404319552844595 / 18014398509481984)) (Finite 100)) = Inr 30"
proof -
  have "rn (135107988821114875 / 4503599627370496) = Finite (30)"
    by (rule rn_nearest [where e = 4 and m = 8444249301319680]) (simp_all add: pow2_def)
  then show ?thesis by simp
qed

lemma weight_percent_025: "py_int (py_mul (Finite (1 / 4)) (Finite 100)) = Inr 25"
proof -
  have "rn (25) = Finite (25)"
    by (rule rn_exact [where e = 4 and k = 7036874417766400]) (simp_all add: pow2_def)
  then show ?thesis by simp
qed

lemma weight_percent_020: "py_int (py_mul (Finite (3602879701896397 / 18014398509481984)) (Finite 100)) = Inr 20"
proof -
  have "rn (90071992547409925 / 4503599627370496) = Finite (20)"
    by (rule rn_nearest [where e = 4 and m = 5629499534213120]) (simp_all add: pow2_def)
  then show ?thesis by simp
qed

lemma weight_percent_015: "py_int (py_mul (Finite (5404319552844595 / 36028797018963968)) (Finite 100)) = Inr 15"
proof -
  have "rn (135107988821114875 / 9007199254740992) = Finite (15)"
    by (rule rn_nearest [where e = 3 and m = 8444249301319680]) (simp_all add: pow2_def)
  then show ?thesis by simp
qed

lemma weight_percent_010: "py_int (py_mul (Finite (3602879701896397 / 36028797018963968)) (Finite 100)) = Inr 10"
proof -
  have "rn (90071992547409925 / 9007199254740992) = Finite (10)"
    by (rule rn_nearest [where e = 3 and m = 5629499534213120]) (simp_all add: pow2_def)
  then show ?thesis by simp
qed

lemmas weight_percents =
  weight_percent_030 weight_percent_025 weight_percent_020 weight_percent_015 weight_percent_010

lemma py_add_1: "py_add (Finite (0)) (Finite (5404319552844595 / 18014398509481984)) = Finite (5404319552844595 / 18014398509481984)"
proof -
  have "rn (5404319552844595 / 18014398509481984) = Finite (5404319552844595 / 18014398509481984)"
    by (rule rn_exact [where e = "- 2" and k = 5404319552844595]) (simp_all add: pow2_def)
  then show ?thesis by simp
qed

lemma py_add_2: "py_add (Finite (5404319552844595 / 18014398509481984)) (Finite (1 / 4)) = Finite (2476979795053773 / 4503599627370496)"
proof -
  have "rn (9907919180215091 / 18014398509481984) = Finite (2476979795053773 / 4503599627370496)"
    by (rule rn_tie [where e = "- 1" and f = 4953959590107545]) (simp_all add: pow2_def)
  then show ?thesis by simp
qed

lemma py_add_3: "py_add (Finite (2476979795053773 / 4503599627370496)) (Finite (3602879701896397 / 18014398509481984)) = Finite (3 / 4)"
proof -
  have "rn (13510798882111489 / 18014398509481984) = Finite (3 / 4)"
    by (rule rn_tie [where e = "- 1" and f = 6755399441055744]) (simp_all add: pow2_def)
  then show ?thesis by simp
qed

lemma py_add_4: "py_add (Finite (3 / 4)) (Finite (5404319552844595 / 36028797018963968)) = Finite (8106479329266893 / 9007199254740992)"
proof -
  have "rn (32425917317067571 / 36028797018963968) = Finite (8106479329266893 / 9007199254740992)"
    by (rule rn_nearest [where e = "- 1" and m = 8106479329266893]) (simp_all add: pow2_def)
  then show ?thesis by simp
qed

lemma py_add_5: "py_add (Finite (8106479329266893 / 9007199254740992)) (Finite (3602879701896397 / 36028797018963968)) = Finite (1)"
proof -
  have "rn (36028797018963969 / 36028797018963968) = Finite (1)"
    by (rule rn_nearest [where e = 0 and m = 4503599627370496]) (simp_all add: pow2_def)
  then show ?thesis by simp
qed

lemma py_sum_weights_1:
  "py_sum [Finite (5404319552844595 / 18014398509481984),
           Finite (1 / 4),
           Finite (3602879701896397 / 18014398509481984),
           Finite (5404319552844595 / 36028797018963968),
           Finite (3602879701896397 / 36028797018963968)] = Finite 1"
  by (simp only: py_sum_def foldl_Cons foldl_Nil py_add_1 py_add_2 py_add_3 py_add_4 py_add_5)

lemma py_add_6: "py_add (Finite (0)) (Finite (1 / 4)) = Finite (1 / 4)"
proof -
  have "rn (1 / 4) = Finite (1 / 4)"
    by (rule rn_exact [where e = "- 2" and k = 4503599627370496]) (simp_all add: pow2_def)
  then show ?thesis by simp
qed

lemma py_add_7: "py_add (Finite (1 / 4)) (Finite (1 / 4)) = Finite (1 / 2)"
proof -
  have "rn (1 / 2) = Finite (1 / 2)"
    by (rule rn_exact [where e = "- 1" and k = 4503599627370496]) (simp_all add: pow2_def)
  then show ?thesis by simp
qed

lemma py_add_8: "py_add (Finite (1 / 2)) (Finite (3602879701896397 / 18014398509481984)) = Finite (3152519739159347 / 4503599627370496)"
proof -
  have "rn (12610078956637389 / 18014398509481984) = Finite (3152519739159347 / 4503599627370496)"
    by (rule rn_tie [where e = "- 1" and f = 6305039478318694]) (simp_all add: pow2_def)
  then show ?thesis by simp
qed

lemma py_add_9: "py_add (Finite (3152519739159347 / 4503599627370496)) (Finite (5404319552844595 / 36028797018963968)) = Finite (7656119366529843 / 9007199254740992)"
proof -
  have "rn (30624477466119371 / 36028797018963968) = Finite (7656119366529843 / 9007199254740992)"
    by (rule rn_nearest [where e = "- 1" and m = 7656119366529843]) (simp_all add: pow2_def)
  then show ?thesis by simp
qed

lemma py_add_10: "py_add (Finite (7656119366529843 / 9007199254740992)) (Finite (5404319552844595 / 36028797018963968)) = Finite (1)"
proof -
  have "rn (36028797018963967 / 36028797018963968) = Finite (1)"
    by (rule rn_nearest [where e = "- 1" and m = 9007199254740992]) (simp_all add: pow2_def)
  then show ?thesis by simp
qed

lemma py_sum_weights_2:
  "py_sum [Finite (1 / 4),
           Finite (1 / 4),
           Finite (3602879701896397 / 18014398509481984),
           Finite (5404319552844595 / 36028797018963968),
           Finite (5404319552844595 / 36028797018963968)] = Finite 1"
  by (simp only: py_sum_def foldl_Cons foldl_Nil py_add_6 py_add_7 py_add_8 py_add_9 py_add_10)

lemma py_add_11: "py_add (Finite (5404319552844595 / 18014398509481984)) (Finite (3602879701896397 / 18014398509481984)) = Finite (1 / 2)"
proof -
  have "rn (1 / 2) = Finite (1 / 2)"
    by (rule rn_exact [where e = "- 1" and k = 4503599627370496]) (simp_all add: pow2_def)
  then show ?thesis by simp
qed

lemma py_sum_weights_3:
  "py_sum [Finite (5404319552844595 / 18014398509481984),
           Finite (3602879701896397 / 18014398509481984),
           Finite (3602879701896397 / 18014398509481984),
           Finite (5404319552844595 / 36028797018963968),
           Finite (5404319552844595 / 36028797018963968)] = Finite 1"
  by (simp only: py_sum_def foldl_Cons foldl_Nil py_add_1 py_add_11 py_add_8 py_add_9 py_add_10)

subsection \<open>Rubric store\<close>

lemma dict_item_PLATFORM_RULES:
  "dict_item PLATFORM_RULES platform =
     (if platform = ''TikTok'' then Inr TikTok_rules
      else if platform = ''Twitter/X'' then Inr Twitter_X_rules
      else if platform = ''YouTube'' then Inr YouTube_rules
      else if platform = ''Instagram'' then Inr Instagram_rules
      else Inl (KeyError platform))"
  by (simp add: dict_item_def PLATFORM_RULES_def)

lemma criteria_lines_ok:
  "\<exists>ls. map_result criterion_line (criteria TikTok_rules) = Inr ls"
  "\<exists>ls. map_result criterion_line (criteria Twitter_X_rules) = Inr ls"
  "\<exists>ls. map_result criterion_line (criteria YouTube_rules) = Inr ls"
  "\<exists>ls. map_result criterion_line (criteria Instagram_rules) = Inr ls"
  by (simp_all add: TikTok_rules_def Twitter_X_rules_def YouTube_rules_def Instagram_rules_def
        criterion_line_def bind_result_def float_literals weight_percents del: py_mul.simps)

lemma dict_item_in_set:
  "dict_item d k = Inr v \<Longrightarrow> (k, v) \<in> set d"
  by (auto simp: dict_item_def split: option.splits dest: map_of_SomeD)

lemma build_scoring_rubric_ok:
  assumes "dict_item PLATFORM_RULES platform = Inr rules"
    and "\<exists>ls. map_result criterion_line (criteria rules) = Inr ls"
  shows "\<exists>rules text. dict_item PLATFORM_RULES platform = Inr rules
         \<and> (platform, rules) \<in> set PLATFORM_RULES
         \<and> build_scoring_rubric platform = Inr text"
  using assms dict_item_in_set [OF assms(1)]
  by (auto simp: build_scoring_rubric_def bind_result_def)

text \<open>
  C7, as the code has it: the rubric of a platform outside the static set is not found, and
  the lookup raises \<open>KeyError\<close> with that platform as its key (the program has no
  \<open>UnknownPlatformError\<close>); for every platform of the static set the lookup returns that
  platform's entry of the table and the rubric text is built.
\<close>

theorem build_scoring_rubric_lookup:
  "(platform \<notin> set PLATFORMS \<longrightarrow>
      dict_item PLATFORM_RULES platform = Inl (KeyError platform)
      \<and> build_scoring_rubric platform = Inl (KeyError platform))
   \<and> (platform \<in> set PLATFORMS \<longrightarrow>
      (\<exists>rules text. dict_item PLATFORM_RULES platform = Inr rules
         \<and> (platform, rules) \<in> set PLATFORM_RULES
         \<and> build_scoring_rubric platform = Inr text))"
proof (intro conjI impI)
  assume "platform \<notin> set PLATFORMS"
  then have "dict_item PLATFORM_RULES platform = Inl (KeyError platform)"
    by (simp add: dict_item_PLATFORM_RULES PLATFORMS_def)
  then show "dict_item PLATFORM_RULES platform = Inl (KeyError platform)"
    and "build_scoring_rubric platform = Inl (KeyError platform)"
    by (simp_all add: build_scoring_rubric_def bind_result_def)
next
  assume "platform \<in> set PLATFORMS"
  then consider "platform = ''TikTok''" | "platform = ''Twitter/X''"
    | "platform = ''YouTube''" | "platform = ''Instagram''"
    by (auto simp: PLATFORMS_def)
  then show "\<exists>rules text. dict_item PLATFORM_RULES platform = Inr rules
         \<and> (platform, rules) \<in> set PLATFORM_RULES
         \<and> build_scoring_rubric platform = Inr text"
  proof cases
    case 1
    then have "dict_item PLATFORM_RULES platform = Inr TikTok_rules"
      by (simp add: dict_item_PLATFORM_RULES)
    then show ?thesis
      using criteria_lines_ok(1) by (rule build_scoring_rubric_ok)
  next
    case 2
    then have "dict_item PLATFORM_RULES platform = Inr Twitter_X_rules"
      by (simp add: dict_item_PLATFORM_RULES)
    then show ?thesis
      using criteria_lines_ok(2) by (rule build_scoring_rubric_ok)
  next
    case 3
    then have "dict_item PLATFORM_RULES platform = Inr YouTube_rules"
      by (simp add: dict_item_PLATFORM_RULES)
    then show ?thesis
      using criteria_lines_ok(3) by (rule build_scoring_rubric_ok)
  next
    case 4
    then have "dict_item PLATFORM_RULES platform = Inr Instagram_rules"
      by (simp add: dict_item_PLATFORM_RULES)
    then show ?thesis
      using criteria_lines_ok(4) by (rule build_scoring_rubric_ok)
  qed
qed

theorem build_scoring_rubric_lookup_witness:
  "build_scoring_rubric ''Mastodon'' = Inl (KeyError ''Mastodon'')
   \<and> (\<exists>rules text. dict_item PLATFORM_RULES ''YouTube'' = Inr rules
         \<and> (''YouTube'', rules) \<in> set PLATFORM_RULES
         \<and> build_scoring_rubric ''YouTube'' = Inr text)"
  using build_scoring_rubric_lookup [of "''Mastodon''"] build_scoring_rubric_lookup [of "''YouTube''"]
  by (simp add: PLATFORMS_def)

text \<open>
  C7 as stated fails: for a platform outside the set the error is \<open>KeyError\<close>, not
  \<open>UnknownPlatformError\<close>.
\<close>

theorem build_scoring_rubric_unknown_counterexample:
  "''Facebook'' \<notin> set PLATFORMS
   \<and> build_scoring_rubric ''Facebook'' = Inl (KeyError ''Facebook'')
   \<and> build_scoring_rubric ''Facebook'' \<noteq> Inl UnknownPlatformError"
  by (simp add: PLATFORMS_def build_scoring_rubric_def dict_item_PLATFORM_RULES bind_result_def)

text \<open>
  C8: for every platform of the static set, the criterion weights of its rubric, added as
  floats in table order, give exactly 1.0, and each weight lies in \<open>[0, 1]\<close>.
\<close>

theorem platform_weights_sum_to_one:
  assumes "platform \<in> set PLATFORMS"
  shows "\<exists>rules. dict_item PLATFORM_RULES platform = Inr rules
           \<and> py_sum (map (\<lambda>item. weight (snd item)) (criteria rules)) = Finite 1
           \<and> (\<forall>item \<in> set (criteria rules). unit_weight (weight (snd item)))"
proof -
  from assms consider "platform = ''TikTok''" | "platform = ''Twitter/X''"
    | "platform = ''YouTube''" | "platform = ''Instagram''"
    by (auto simp: PLATFORMS_def)
  then show ?thesis
  proof cases
    case 1
    then show ?thesis
      by (simp add: dict_item_PLATFORM_RULES TikTok_rules_def float_literals py_sum_weights_1)
  next
    case 2
    then show ?thesis
      by (simp add: dict_item_PLATFORM_RULES Twitter_X_rules_def float_literals py_sum_weights_1)
  next
    case 3
    then show ?thesis
      by (simp add: dict_item_PLATFORM_RULES YouTube_rules_def float_literals py_sum_weights_2)
  next
    case 4
    then show ?thesis
      by (simp add: dict_item_PLATFORM_RULES Instagram_rules_def float_literals py_sum_weights_3)
  qed
qed

theorem platform_weights_sum_to_one_witness:
  "\<exists>rules. dict_item PLATFORM_RULES ''Instagram'' = Inr rules
           \<and> py_sum (map (\<lambda>item. weight (snd item)) (criteria rules)) = Finite 1
           \<and> (\<forall>item \<in> set (criteria rules). unit_weight (weight (snd item)))"
  using platform_weights_sum_to_one [of "''Instagram''"] by (simp add: PLATFORMS_def)

subsection \<open>Trend source\<close>

lemma fetch_live_raises: "fetch_live (Inl e) file count = Inl e"
  by (simp add: fetch_live_def bind_result_def)

text \<open>
  C6 does not hold of the code when the sample file cannot be loaded. If the live lookup
  raises, the handler loads \<open>sample_trends.json\<close>: with the file absent, not JSON or
  without \<open>"trends"\<close> the loader's exception reaches the caller; with the file as shipped the
  fetcher returns the first \<open>count\<close> entries of its list, in order, and for \<open>count = 5\<close> the
  first five.
\<close>

theorem fetch_gaming_trends_fallback:
  assumes "live = Inl e"
  shows "fetch_gaming_trends live Missing count = Inl FileNotFoundError
       \<and> fetch_gaming_trends live Malformed count = Inl JSONDecodeError
       \<and> fetch_gaming_trends live NoTrends count = Inl (KeyError ''trends'')
       \<and> (0 \<le> count \<longrightarrow>
            fetch_gaming_trends live (Trends sample) count = Inr (take (nat count) sample))
       \<and> fetch_gaming_trends live (Trends sample) 5 = Inr (take 5 sample)"
  using assms
  by (simp add: fetch_gaming_trends_def fetch_live_raises load_sample_trends_def bind_result_def
        slice_to_def)

theorem fetch_gaming_trends_fallback_witness:
  "fetch_gaming_trends (Inl BackendError) Missing 5 = Inl FileNotFoundError
   \<and> fetch_gaming_trends (Inl BackendError)
         (Trends [''a'', ''b'', ''c'', ''d'', ''e'', ''f'']) 5
       = Inr [''a'', ''b'', ''c'', ''d'', ''e'']"
  using fetch_gaming_trends_fallback
          [of "Inl BackendError" BackendError 5 "[''a'', ''b'', ''c'', ''d'', ''e'', ''f'']"]
  by simp

subsection \<open>Round loop\<close>

declare game_loop.simps [simp del]

lemma play_round_ok:
  assumes replies: "\<forall>k a m. \<exists>reply. backend k a m = Inr reply"
    and scores: "\<forall>k m reply. backend k Algorithm m = Inr reply \<longrightarrow> (\<exists>sc. extract_scores reply = Inr sc)"
  shows "\<exists>st' msg c sc.
           play_round backend i st = Inr st'
           \<and> calls st' = calls st @ [(Creator, msg), (Algorithm, AlgorithmPrompt c), (Audience, AudiencePrompt c)]
           \<and> backend (length (calls st) + 1) Algorithm (AlgorithmPrompt c) = Inr (algorithm_response st')
           \<and> extract_scores (algorithm_response st') = Inr sc
           \<and> round_scores st' = Some sc"
proof -
  obtain c where c: "backend (length (calls st)) Creator
      (if i = 1 then CreatorPrompt
       else RevisionPrompt i (algorithm_response st) (audience_response st)) = Inr c"
    using replies by blast
  obtain a where a: "backend (length (calls st) + 1) Algorithm (AlgorithmPrompt c) = Inr a"
    using replies by blast
  obtain u where u: "backend (length (calls st) + 2) Audience (AudiencePrompt c) = Inr u"
    using replies by blast
  obtain sc where sc: "extract_scores a = Inr sc"
    using scores a by blast
  show ?thesis
    using c a u sc
    by (auto simp add: play_round_def get_agent_response_def bind_result_def)
qed

lemma extract_scores_empty:
  "extract_scores [] = Inr \<lparr>reach = 50, engagement = 50, virality = 50, weighted_total = 50\<rparr>"
  by (simp add: extract_scores_def simple_score_def weighted_total_score_def simple_pattern_def
        weighted_total_rx_def bind_result_def same_text_def)

text \<open>
  When every agent call answers and the scores of every evaluation can be extracted,
  the round loop ends with a scorecard. It runs one Creator, Algorithm, Audience cycle per
  round: one round if the player locks in (\<open>"2"\<close>) after round 1, two if the player
  iterates and then locks in, and three otherwise, the third round ending the loop without
  a question. The scorecard shows the scores extracted from the evaluation of the last
  round run; so two iterations give exactly three cycles, and locking in on round 1 gives
  exactly one cycle and the scores of round 1.
\<close>

lemma round_loop_cycles:
  assumes replies: "\<forall>k a m. \<exists>reply. backend k a m = Inr reply"
    and scores: "\<forall>k m reply. backend k Algorithm m = Inr reply \<longrightarrow> (\<exists>sc. extract_scores reply = Inr sc)"
  shows "\<exists>card st sc c.
      run_rounds backend ask = Inr (card, st)
      \<and> iterations_used card = (if ask 1 = ''2'' then 1 else if ask 2 = ''2'' then 2 else 3)
      \<and> map fst (calls st) = concat (replicate (iterations_used card) [Creator, Algorithm, Audience])
      \<and> backend (3 * iterations_used card - 2) Algorithm (AlgorithmPrompt c) = Inr (algorithm_response st)
      \<and> extract_scores (algorithm_response st) = Inr sc
      \<and> shown_reach card = reach sc \<and> shown_engagement card = engagement sc
      \<and> shown_virality card = virality sc \<and> shown_weighted_total card = weighted_total sc"
proof -
  note pr = play_round_ok [where backend = backend, OF replies scores]
  obtain s1 m1 c1 sc1 where r1: "play_round backend (Suc 0) initial_game = Inr s1"
    and k1: "calls s1 = calls initial_game @ [(Creator, m1), (Algorithm, AlgorithmPrompt c1), (Audience, AudiencePrompt c1)]"
    and b1: "backend (length (calls initial_game) + 1) Algorithm (AlgorithmPrompt c1) = Inr (algorithm_response s1)"
    and e1: "extract_scores (algorithm_response s1) = Inr sc1" "round_scores s1 = Some sc1"
    using pr [where i = "Suc 0" and st = initial_game] by blast
  obtain s2 m2 c2 sc2 where r2: "play_round backend (Suc (Suc 0)) s1 = Inr s2"
    and k2: "calls s2 = calls s1 @ [(Creator, m2), (Algorithm, AlgorithmPrompt c2), (Audience, AudiencePrompt c2)]"
    and b2: "backend (length (calls s1) + 1) Algorithm (AlgorithmPrompt c2) = Inr (algorithm_response s2)"
    and e2: "extract_scores (algorithm_response s2) = Inr sc2" "round_scores s2 = Some sc2"
    using pr [where i = "Suc (Suc 0)" and st = s1] by blast
  obtain s3 m3 c3 sc3 where r3: "play_round backend (Suc (Suc (Suc 0))) s2 = Inr s3"
    and k3: "calls s3 = calls s2 @ [(Creator, m3), (Algorithm, AlgorithmPrompt c3), (Audience, AudiencePrompt c3)]"
    and b3: "backend (length (calls s2) + 1) Algorithm (AlgorithmPrompt c3) = Inr (algorithm_response s3)"
    and e3: "extract_scores (algorithm_response s3) = Inr sc3" "round_scores s3 = Some sc3"
    using pr [where i = "Suc (Suc (Suc 0))" and st = s2] by blast
  have l3: "game_loop backend ask (Suc (Suc (Suc 0))) s3 = Inr (3, s3)"
    by (subst game_loop.simps) (simp add: MAX_ITERATIONS_def)
  have l2: "game_loop backend ask (Suc (Suc 0)) s2 = Inr (3, s3)"
    by (subst game_loop.simps) (simp add: MAX_ITERATIONS_def r3 l3)
  have l1: "game_loop backend ask (Suc 0) s1 = (if ask 2 = ''2'' then Inr (2, s2) else Inr (3, s3))"
    by (subst game_loop.simps) (simp add: MAX_ITERATIONS_def r2 l2 numeral_2_eq_2)
  have l0: "game_loop backend ask 0 initial_game =
      (if ask 1 = ''2'' then Inr (1, s1) else if ask 2 = ''2'' then Inr (2, s2) else Inr (3, s3))"
    by (subst game_loop.simps) (simp add: MAX_ITERATIONS_def r1 l1)
  have c0: "calls initial_game = []" by (simp add: initial_game_def)
  consider "ask 1 = ''2''" | "ask 1 \<noteq> ''2''" "ask 2 = ''2''" | "ask 1 \<noteq> ''2''" "ask 2 \<noteq> ''2''"
    by blast
  then show ?thesis
  proof cases
    case 1
    then have "run_rounds backend ask = Inr (final_scorecard 1 s1, s1)"
      by (simp add: run_rounds_def l0)
    then show ?thesis
      using 1 k1 b1 e1 c0
      by (intro exI [of _ "final_scorecard 1 s1"] exI [of _ s1] exI [of _ sc1] exI [of _ c1])
         (simp add: final_scorecard_def)
  next
    case 2
    then have "run_rounds backend ask = Inr (final_scorecard 2 s2, s2)"
      by (simp add: run_rounds_def l0)
    then show ?thesis
      using 2 k1 k2 b2 e2 c0
      by (intro exI [of _ "final_scorecard 2 s2"] exI [of _ s2] exI [of _ sc2] exI [of _ c2])
         (simp add: final_scorecard_def numeral_eq_Suc)
  next
    case 3
    then have "run_rounds backend ask = Inr (final_scorecard 3 s3, s3)"
      by (simp add: run_rounds_def l0)
    then show ?thesis
      using 3 k1 k2 k3 b3 e3 c0
      by (intro exI [of _ "final_scorecard 3 s3"] exI [of _ s3] exI [of _ sc3] exI [of _ c3])
         (simp add: final_scorecard_def numeral_eq_Suc)
  qed
qed

lemma round_loop_cycles_example:
  "\<exists>card st sc c.
      run_rounds (\<lambda>k a m. Inr []) (\<lambda>i. ''1'') = Inr (card, st)
      \<and> iterations_used card = 3
      \<and> map fst (calls st) = concat (replicate (iterations_used card) [Creator, Algorithm, Audience])
      \<and> (Inr [] :: error + string) = Inr (algorithm_response st)
      \<and> extract_scores (algorithm_response st) = Inr sc
      \<and> shown_reach card = reach sc \<and> shown_engagement card = engagement sc
      \<and> shown_virality card = virality sc \<and> shown_weighted_total card = weighted_total sc"
  using round_loop_cycles [of "\<lambda>k a m. Inr []" "\<lambda>i. ''1''"]
  by (simp add: extract_scores_empty)

text \<open>
  The loop, unfolded: at most three rounds; after round 1 and round 2 the player is asked and
  \<open>"2"\<close> ends the loop; after round 3 nobody is asked; an exception of a round ends the run.
\<close>

lemma run_rounds_unfold:
  "run_rounds backend ask =
     (case play_round backend 1 initial_game of
        Inl e \<Rightarrow> Inl e
      | Inr s1 \<Rightarrow>
          if ask 1 = ''2'' then Inr (final_scorecard 1 s1, s1)
          else
            (case play_round backend 2 s1 of
               Inl e \<Rightarrow> Inl e
             | Inr s2 \<Rightarrow>
                 if ask 2 = ''2'' then Inr (final_scorecard 2 s2, s2)
                 else
                   (case play_round backend 3 s2 of
                      Inl e \<Rightarrow> Inl e
                    | Inr s3 \<Rightarrow> Inr (final_scorecard 3 s3, s3))))"
proof -
  have l3: "game_loop backend ask (Suc (Suc (Suc 0))) s = Inr (3, s)" for s
    by (subst game_loop.simps) (simp add: MAX_ITERATIONS_def)
  have l2: "game_loop backend ask (Suc (Suc 0)) s =
      (case play_round backend 3 s of Inl e \<Rightarrow> Inl e | Inr s3 \<Rightarrow> Inr (3, s3))" for s
    by (subst game_loop.simps) (simp add: MAX_ITERATIONS_def l3 numeral_3_eq_3 split: sum.splits)
  have l1: "game_loop backend ask (Suc 0) s =
      (case play_round backend 2 s of
         Inl e \<Rightarrow> Inl e
       | Inr s2 \<Rightarrow> if ask 2 = ''2'' then Inr (2, s2) else game_loop backend ask (Suc (Suc 0)) s2)" for s
    by (subst game_loop.simps) (simp add: MAX_ITERATIONS_def numeral_2_eq_2 split: sum.splits)
  have l0: "game_loop backend ask 0 s =
      (case play_round backend 1 s of
         Inl e \<Rightarrow> Inl e
       | Inr s1 \<Rightarrow> if ask 1 = ''2'' then Inr (1, s1) else game_loop backend ask (Suc 0) s1)" for s
    by (subst game_loop.simps) (simp add: MAX_ITERATIONS_def split: sum.splits)
  show ?thesis
    unfolding run_rounds_def l0 l1 l2
    by (simp split: sum.splits)
qed

text \<open>
  A round, when its three calls answer and the scores of the evaluation can be extracted:
  the Creator is asked first (for a revision carrying the last evaluation and reaction from
  round 2 on), then the Algorithm and the Audience are each asked about the Creator's
  reply, and the round's scores are those of the Algorithm's reply.
\<close>

lemma play_round_cycle:
  assumes "backend (length (calls st)) Creator
             (if i = 1 then CreatorPrompt
              else RevisionPrompt i (algorithm_response st) (audience_response st)) = Inr c"
    and "backend (length (calls st) + 1) Algorithm (AlgorithmPrompt c) = Inr a"
    and "backend (length (calls st) + 2) Audience (AudiencePrompt c) = Inr u"
    and "extract_scores a = Inr sc"
  shows "play_round backend i st =
     Inr \<lparr>creator_response = c, algorithm_response = a, audience_response = u,
          round_scores = Some sc,
          calls = calls st @
            [(Creator, if i = 1 then CreatorPrompt
                       else RevisionPrompt i (algorithm_response st) (audience_response st)),
             (Algorithm, AlgorithmPrompt c), (Audience, AudiencePrompt c)]\<rparr>"
  using assms
  by (simp add: play_round_def get_agent_response_def bind_result_def)

subsection \<open>The matcher on the extractor's patterns\<close>

lemma join_match_None [simp]: "join_match (w1, None, t1) m = prepend w1 m"
  by (cases m) (simp add: join_match_def prepend_def split: option.splits)

lemma re_search_first_match:
  "re_search ic r [] = map_option (\<lambda>(w, g, t). (w, g)) (first_match ic r [])"
  "re_search ic r (c # cs) =
     (case first_match ic r (c # cs) of
        None \<Rightarrow> re_search ic r cs
      | Some (w, g, t) \<Rightarrow> Some (w, g))"
  by (auto simp: first_match_def split: list.splits)

lemma first_match_map:
  "first_match' = (case ms of [] \<Rightarrow> None | m # _ \<Rightarrow> Some m) \<Longrightarrow>
   (case map f ms of [] \<Rightarrow> None | m # _ \<Rightarrow> Some m) = map_option f first_match'"
  by (cases ms) auto

lemma matches_Seq_Lit:
  "matches ic (Seq (Lit l) r) s =
     (if starts_with ic l s
      then map (prepend (take (length l) s)) (matches ic r (drop (length l) s))
      else [])"
  by (auto simp: starts_with_def)

lemma takeWhile_eq_take_length: "take (length (takeWhile p s)) s = takeWhile p s"
  by (induction s) auto

lemma dropWhile_eq_drop_length: "drop (length (takeWhile p s)) s = dropWhile p s"
  by (induction s) auto

lemma drop_in_takeWhile:
  "k < length (takeWhile p s) \<Longrightarrow> \<exists>c u. drop k s = c # u \<and> p c"
proof (induction s arbitrary: k)
  case Nil
  then show ?case by simp
next
  case (Cons a s)
  then show ?case by (cases k) (auto split: if_splits)
qed

lemma concat_all_Nil: "(\<And>x. x \<in> set xs \<Longrightarrow> f x = []) \<Longrightarrow> concat (map f xs) = []"
  by (induction xs) auto

lemma matches_Seq_Star:
  assumes "\<And>c t. p c \<Longrightarrow> matches ic r (c # t) = []"
  shows "matches ic (Seq (Star p) r) s =
           map (prepend (takeWhile p s)) (matches ic r (dropWhile p s))"
proof -
  let ?n = "length (takeWhile p s)"
  let ?f = "\<lambda>m1. map (join_match m1) (matches ic r (snd (snd m1)))"
  have z: "concat (map ?f (splits_at s (rev [0..<?n]))) = []"
  proof (rule concat_all_Nil)
    fix x assume "x \<in> set (splits_at s (rev [0..<?n]))"
    then obtain k where k: "k < ?n" "x = (take k s, None, drop k s)"
      by (auto simp: splits_at_def)
    from drop_in_takeWhile [OF k(1)] obtain c u where "drop k s = c # u" "p c" by blast
    then show "?f x = []" using assms k by simp
  qed
  have a: "matches ic (Seq (Star p) r) s =
      ?f (take ?n s, None, drop ?n s) @ concat (map ?f (splits_at s (rev [0..<?n])))"
    by (simp add: splits_at_def)
  have b: "?f (take ?n s, None, drop ?n s) =
      map (prepend (takeWhile p s)) (matches ic r (dropWhile p s))"
    by (simp add: takeWhile_eq_take_length dropWhile_eq_drop_length)
  show ?thesis unfolding a z b by simp
qed

lemma matches_Seq_StarLazy:
  assumes "\<And>c t. p c \<Longrightarrow> matches ic r (c # t) = []"
  shows "matches ic (Seq (StarLazy p) r) s =
           map (prepend (takeWhile p s)) (matches ic r (dropWhile p s))"
proof -
  let ?n = "length (takeWhile p s)"
  let ?f = "\<lambda>m1. map (join_match m1) (matches ic r (snd (snd m1)))"
  have z: "concat (map ?f (splits_at s [0..<?n])) = []"
  proof (rule concat_all_Nil)
    fix x assume "x \<in> set (splits_at s [0..<?n])"
    then obtain k where k: "k < ?n" "x = (take k s, None, drop k s)"
      by (auto simp: splits_at_def)
    from drop_in_takeWhile [OF k(1)] obtain c u where "drop k s = c # u" "p c" by blast
    then show "?f x = []" using assms k by simp
  qed
  have a: "matches ic (Seq (StarLazy p) r) s =
      concat (map ?f (splits_at s [0..<?n])) @ ?f (take ?n s, None, drop ?n s)"
    by (simp add: splits_at_def)
  have b: "?f (take ?n s, None, drop ?n s) =
      map (prepend (takeWhile p s)) (matches ic r (dropWhile p s))"
    by (simp add: takeWhile_eq_take_length dropWhile_eq_drop_length)
  show ?thesis unfolding a z b by simp
qed

lemma matches_Plus_Nil: "matches ic (Plus p) s = [] \<longleftrightarrow> takeWhile p s = []"
  by (cases "takeWhile p s") (auto simp: splits_at_def)

lemma first_match_Plus:
  "first_match ic (Plus p) s =
     (if takeWhile p s = [] then None else Some (takeWhile p s, None, dropWhile p s))"
proof (cases "takeWhile p s = []")
  case True
  then show ?thesis by (simp add: first_match_def splits_at_def)
next
  case False
  let ?n = "length (takeWhile p s)"
  have "Suc 0 \<le> ?n" using False by (cases "takeWhile p s") auto
  then have "rev [1..<Suc ?n] = ?n # rev [1..<?n]" by simp
  then have "matches ic (Plus p) s =
      (take ?n s, None, drop ?n s) # splits_at s (rev [1..<?n])"
    by (simp add: splits_at_def)
  then show ?thesis
    using False
    by (simp add: first_match_def takeWhile_eq_take_length dropWhile_eq_drop_length)
qed

lemma of_char_lower:
  "(of_char (lower c) :: int) =
     (if (65 \<le> (of_char c :: int) \<and> (of_char c :: int) \<le> 90)
         \<or> (192 \<le> (of_char c :: int) \<and> (of_char c :: int) \<le> 222 \<and> (of_char c :: int) \<noteq> 215)
      then of_char c + 32 else of_char c)"
  by (auto simp: lower_def Let_def of_char_of)

lemma lower_eq_dot: "lower c = CHR ''.'' \<longleftrightarrow> c = CHR ''.''"
proof
  assume "lower c = CHR ''.''"
  then have "(of_char (lower c) :: int) = 46" by simp
  then have "(of_char c :: int) = of_char (CHR ''.'')"
    by (simp add: of_char_lower split: if_splits)
  then show "c = CHR ''.''" by (simp only: of_char_eq_iff)
next
  assume "c = CHR ''.''"
  then show "lower c = CHR ''.''" by (simp add: lower_def)
qed

lemma starts_with_dot: "starts_with ic ''.'' t \<longleftrightarrow> (\<exists>u. t = CHR ''.'' # u)"
proof (cases t)
  case Nil
  then show ?thesis by (simp add: starts_with_def)
next
  case (Cons c u)
  have "lower (CHR ''.'') = CHR ''.''" by (simp add: lower_def)
  then show ?thesis
    using Cons lower_eq_dot [of c] by (auto simp: starts_with_def same_text_def)
qed

lemma digit_not_dot: "digit c \<Longrightarrow> c \<noteq> CHR ''.''"
  by (auto simp: digit_def)


lemma take_number_fraction:
  "dropWhile digit s = CHR ''.'' # d # u \<Longrightarrow> digit d \<Longrightarrow>
   take_number s = takeWhile digit s @ CHR ''.'' # takeWhile digit (d # u)"
  by (simp add: take_number_def)

lemma take_number_plain:
  "(\<And>d u. dropWhile digit s = CHR ''.'' # d # u \<Longrightarrow> \<not> digit d) \<Longrightarrow>
   take_number s = takeWhile digit s"
  by (auto simp: take_number_def Let_def split: list.splits)

lemma set_matches_Seq:
  "m \<in> set (matches ic (Seq r1 r2) s) \<longleftrightarrow>
     (\<exists>m1 \<in> set (matches ic r1 s). \<exists>m2 \<in> set (matches ic r2 (snd (snd m1))). m = join_match m1 m2)"
  by auto

lemma set_matches_Opt:
  "m \<in> set (matches ic (Opt r) s) \<longleftrightarrow> m \<in> set (matches ic r s) \<or> m = ([], None, s)"
  by auto

lemma set_matches_Group:
  "m \<in> set (matches ic (Group r) s) \<longleftrightarrow>
     (\<exists>w g t. (w, g, t) \<in> set (matches ic r s) \<and> m = (w, Some w, t))"
  by force

lemma matches_Opt_not_Nil: "matches ic (Opt r) s \<noteq> []"
  by simp

declare matches.simps [simp del]

lemma set_matches_Plus:
  "m \<in> set (matches ic (Plus p) s) \<longleftrightarrow>
     (\<exists>k. 1 \<le> k \<and> k \<le> length (takeWhile p s) \<and> m = (take k s, None, drop k s))"
  by (auto simp: matches.simps splits_at_def)

lemma set_matches_fraction:
  "m \<in> set (matches ic (Seq (Lit ''.'') (Plus digit)) t) \<longleftrightarrow>
     (\<exists>u j. t = CHR ''.'' # u \<and> 1 \<le> j \<and> j \<le> length (takeWhile digit u)
            \<and> m = (CHR ''.'' # take j u, None, drop j u))"
proof (cases "starts_with ic ''.'' t")
  case True
  then obtain u where u: "t = CHR ''.'' # u" by (auto simp: starts_with_dot)
  have "matches ic (Seq (Lit ''.'') (Plus digit)) t = map (prepend ''.'') (matches ic (Plus digit) u)"
    unfolding matches_Seq_Lit using True by (simp add: u)
  then have "m \<in> set (matches ic (Seq (Lit ''.'') (Plus digit)) t) \<longleftrightarrow>
      (\<exists>m'. m' \<in> set (matches ic (Plus digit) u) \<and> m = prepend ''.'' m')"
    by auto
  then show ?thesis
    unfolding set_matches_Plus by (auto simp: u prepend_def)
next
  case False
  then have "matches ic (Seq (Lit ''.'') (Plus digit)) t = []"
    unfolding matches_Seq_Lit by simp
  then show ?thesis using False by (auto simp: starts_with_dot)
qed

lemma set_matches_digits_fraction:
  "m \<in> set (matches ic (Seq (Plus digit) (Opt (Seq (Lit ''.'') (Plus digit)))) s) \<longleftrightarrow>
     (\<exists>k. 1 \<le> k \<and> k \<le> length (takeWhile digit s)
          \<and> (m = (take k s, None, drop k s)
               \<or> (\<exists>u j. drop k s = CHR ''.'' # u \<and> 1 \<le> j \<and> j \<le> length (takeWhile digit u)
                      \<and> m = (take k s @ CHR ''.'' # take j u, None, drop j u))))"
  (is "?L \<longleftrightarrow> ?R")
proof
  assume ?L
  then obtain m1 m2 where m1: "m1 \<in> set (matches ic (Plus digit) s)"
    and m2: "m2 \<in> set (matches ic (Opt (Seq (Lit ''.'') (Plus digit))) (snd (snd m1)))"
    and m: "m = join_match m1 m2"
    unfolding set_matches_Seq by blast
  from m1 obtain k where k: "1 \<le> k" "k \<le> length (takeWhile digit s)"
    "m1 = (take k s, None, drop k s)"
    unfolding set_matches_Plus by blast
  from m2 k(3) have "m2 = ([], None, drop k s)
      \<or> m2 \<in> set (matches ic (Seq (Lit ''.'') (Plus digit)) (drop k s))"
    by (auto simp: set_matches_Opt)
  then show ?R
  proof
    assume "m2 = ([], None, drop k s)"
    then show ?R using k m by (auto simp: prepend_def)
  next
    assume "m2 \<in> set (matches ic (Seq (Lit ''.'') (Plus digit)) (drop k s))"
    then obtain u j where "drop k s = CHR ''.'' # u" "1 \<le> j" "j \<le> length (takeWhile digit u)"
      "m2 = (CHR ''.'' # take j u, None, drop j u)"
      unfolding set_matches_fraction by blast
    then show ?R using k m by (auto simp: prepend_def)
  qed
next
  assume ?R
  then obtain k where k: "1 \<le> k" "k \<le> length (takeWhile digit s)"
    and d: "m = (take k s, None, drop k s)
      \<or> (\<exists>u j. drop k s = CHR ''.'' # u \<and> 1 \<le> j \<and> j \<le> length (takeWhile digit u)
             \<and> m = (take k s @ CHR ''.'' # take j u, None, drop j u))"
    by blast
  have m1: "(take k s, None, drop k s) \<in> set (matches ic (Plus digit) s)"
    unfolding set_matches_Plus using k by blast
  from d show ?L
  proof
    assume "m = (take k s, None, drop k s)"
    then have "m = join_match (take k s, None, drop k s) ([], None, drop k s)"
      by (simp add: prepend_def)
    moreover have "([], None, drop k s) \<in> set (matches ic (Opt (Seq (Lit ''.'') (Plus digit))) (drop k s))"
      by (simp add: set_matches_Opt)
    ultimately show ?L using m1 unfolding set_matches_Seq by force
  next
    assume "\<exists>u j. drop k s = CHR ''.'' # u \<and> 1 \<le> j \<and> j \<le> length (takeWhile digit u)
             \<and> m = (take k s @ CHR ''.'' # take j u, None, drop j u)"
    then obtain u j where u: "drop k s = CHR ''.'' # u" "1 \<le> j" "j \<le> length (takeWhile digit u)"
      "m = (take k s @ CHR ''.'' # take j u, None, drop j u)"
      by blast
    then have "(CHR ''.'' # take j u, None, drop j u)
        \<in> set (matches ic (Seq (Lit ''.'') (Plus digit)) (drop k s))"
      unfolding set_matches_fraction by blast
    then have "(CHR ''.'' # take j u, None, drop j u)
        \<in> set (matches ic (Opt (Seq (Lit ''.'') (Plus digit))) (drop k s))"
      by (simp add: set_matches_Opt)
    moreover have "m = join_match (take k s, None, drop k s) (CHR ''.'' # take j u, None, drop j u)"
      using u(4) by (simp add: prepend_def)
    ultimately show ?L using m1 unfolding set_matches_Seq by force
  qed
qed

lemma matches_Plus_Cons:
  assumes "takeWhile p s \<noteq> []"
  shows "\<exists>ms. matches ic (Plus p) s = (takeWhile p s, None, dropWhile p s) # ms"
proof -
  let ?n = "length (takeWhile p s)"
  have "Suc 0 \<le> ?n" using assms by (cases "takeWhile p s") auto
  then have "rev [1..<Suc ?n] = ?n # rev [1..<?n]" by simp
  then show ?thesis
    by (simp add: matches.simps splits_at_def takeWhile_eq_take_length dropWhile_eq_drop_length)
qed

lemma first_match_Opt:
  "first_match ic (Opt r) s =
     Some (case first_match ic r s of None \<Rightarrow> ([], None, s) | Some m \<Rightarrow> m)"
  by (simp add: first_match_def matches.simps split: list.splits)

lemma first_match_Seq_Lit:
  "first_match ic (Seq (Lit l) r) s =
     (if starts_with ic l s
      then map_option (prepend (take (length l) s)) (first_match ic r (drop (length l) s))
      else None)"
  by (simp add: first_match_def matches_Seq_Lit split: list.splits)

lemma first_match_Group:
  "first_match ic (Group r) s = map_option (\<lambda>(w, g, t). (w, Some w, t)) (first_match ic r s)"
  by (simp add: first_match_def matches.simps split: list.splits)

lemma first_match_Seq_Cons:
  assumes "matches ic r1 s = m1 # ms" "matches ic r2 (snd (snd m1)) \<noteq> []"
  shows "first_match ic (Seq r1 r2) s = map_option (join_match m1) (first_match ic r2 (snd (snd m1)))"
  using assms by (cases "matches ic r2 (snd (snd m1))") (simp_all add: first_match_def matches.simps)

lemma first_match_None_iff: "first_match ic r s = None \<longleftrightarrow> matches ic r s = []"
  by (simp add: first_match_def split: list.splits)

lemma first_match_fraction:
  "first_match ic (Seq (Lit ''.'') (Plus digit)) t =
     (case t of
        c # u \<Rightarrow> if c = CHR ''.'' \<and> takeWhile digit u \<noteq> []
                 then Some (CHR ''.'' # takeWhile digit u, None, dropWhile digit u) else None
      | [] \<Rightarrow> None)"
proof (cases "starts_with ic ''.'' t")
  case True
  then obtain u where u: "t = CHR ''.'' # u" by (auto simp: starts_with_dot)
  show ?thesis
    unfolding first_match_Seq_Lit first_match_Plus using True
    by (simp add: u prepend_def)
next
  case False
  then show ?thesis
    unfolding first_match_Seq_Lit by (auto simp: starts_with_dot split: list.splits)
qed

lemma drop_length_append: "drop (length xs) (xs @ ys) = ys"
  by simp

lemma first_match_number_rx:
  "first_match ic number_rx s =
     (if takeWhile digit s = [] then None
      else Some (take_number s, Some (take_number s), drop (length (take_number s)) s))"
proof (cases "takeWhile digit s = []")
  case True
  have "m \<notin> set (matches ic number_rx s)" for m
    by (auto simp: number_rx_def set_matches_Group set_matches_digits_fraction True)
  then have "matches ic number_rx s = []" by (cases "matches ic number_rx s") auto
  then show ?thesis using True by (simp add: first_match_None_iff)
next
  case False
  let ?ip = "takeWhile digit s" and ?r = "dropWhile digit s"
  let ?opt = "Opt (Seq (Lit ''.'') (Plus digit))"
  obtain ms where ms: "matches ic (Plus digit) s = (?ip, None, ?r) # ms"
    using matches_Plus_Cons [OF False] by blast
  have s: "s = ?ip @ ?r" by simp
  have "first_match ic (Seq (Plus digit) ?opt) s =
      map_option (join_match (?ip, None, ?r)) (first_match ic ?opt ?r)"
    using first_match_Seq_Cons [OF ms] matches_Opt_not_Nil by simp
  then have fm: "first_match ic number_rx s =
      Some ((\<lambda>(w, g, t). (w, Some w, t))
        (prepend ?ip (case first_match ic (Seq (Lit ''.'') (Plus digit)) ?r of
                        None \<Rightarrow> ([], None, ?r) | Some m \<Rightarrow> m)))"
    by (simp add: number_rx_def first_match_Group first_match_Opt)
  show ?thesis
  proof (cases "\<exists>d u. ?r = CHR ''.'' # d # u \<and> digit d")
    case True
    then obtain d u where r: "?r = CHR ''.'' # d # u" "digit d" by blast
    have tok: "take_number s = ?ip @ CHR ''.'' # takeWhile digit (d # u)"
      using r by (rule take_number_fraction)
    have "drop (length (take_number s)) s =
        drop (length (CHR ''.'' # takeWhile digit (d # u))) (drop (length ?ip) s)"
      unfolding tok drop_drop by (simp add: add.commute del: takeWhile.simps)
    also have "\<dots> = drop (length (CHR ''.'' # takeWhile digit (d # u))) ?r"
      by (simp only: dropWhile_eq_drop_length)
    also have "\<dots> = drop (length (takeWhile digit (d # u))) (d # u)"
      unfolding r by (simp del: takeWhile.simps)
    also have "\<dots> = dropWhile digit (d # u)"
      by (rule dropWhile_eq_drop_length)
    finally have rest: "drop (length (take_number s)) s = dropWhile digit (d # u)" .
    show ?thesis
      using False r
      by (simp add: fm first_match_fraction prepend_def tok [symmetric] rest [symmetric]
            del: dropWhile.simps takeWhile.simps)
         (simp add: tok rest)
  next
    case no: False
    then have tok: "take_number s = ?ip"
      by (intro take_number_plain) auto
    have rest: "drop (length (take_number s)) s = ?r"
      by (simp add: tok dropWhile_eq_drop_length)
    have "first_match ic (Seq (Lit ''.'') (Plus digit)) ?r = None"
    proof (cases ?r)
      case Nil
      show ?thesis unfolding first_match_fraction Nil by simp
    next
      case (Cons c u)
      have "\<not> (c = CHR ''.'' \<and> takeWhile digit u \<noteq> [])"
      proof
        assume a: "c = CHR ''.'' \<and> takeWhile digit u \<noteq> []"
        then obtain d u' where "u = d # u'" "digit d"
          by (cases u) (auto split: if_splits)
        then show False using no Cons a by simp
      qed
      then show ?thesis unfolding first_match_fraction Cons by auto
    qed
    then show ?thesis
      using False by (simp add: fm prepend_def tok dropWhile_eq_drop_length)
  qed
qed

lemma first_of_map:
  "(case map f ms of [] \<Rightarrow> None | m # x \<Rightarrow> Some m) =
     map_option f (case ms of [] \<Rightarrow> None | m # x \<Rightarrow> Some m)"
  by (cases ms) auto

lemma first_match_Seq_Star:
  assumes "\<And>c t. p c \<Longrightarrow> matches ic r (c # t) = []"
  shows "first_match ic (Seq (Star p) r) s =
           map_option (prepend (takeWhile p s)) (first_match ic r (dropWhile p s))"
  by (simp add: first_match_def matches_Seq_Star [where p = p and ic = ic and r = r, OF assms]
        first_of_map)

lemma first_match_Seq_StarLazy:
  assumes "\<And>c t. p c \<Longrightarrow> matches ic r (c # t) = []"
  shows "first_match ic (Seq (StarLazy p) r) s =
           map_option (prepend (takeWhile p s)) (first_match ic r (dropWhile p s))"
  by (simp add: first_match_def matches_Seq_StarLazy [where p = p and ic = ic and r = r, OF assms]
        first_of_map)

lemma matches_number_rx_Nil: "\<not> digit c \<Longrightarrow> matches ic number_rx (c # t) = []"
  using first_match_number_rx [of ic "c # t"] by (simp add: first_match_None_iff)

lemma space_lower: "space c \<Longrightarrow> lower c = c"
  by (auto simp: space_def lower_def)

lemma space_not_letter:
  assumes "space c"
  shows "c \<noteq> CHR ''s''" "c \<noteq> CHR ''t''" "c \<noteq> CHR ''/''" "c \<noteq> CHR ''1''"
  using assms by (auto simp: space_def)

lemma starts_with_Cons: "starts_with True (a # l) (c # t) \<Longrightarrow> lower a = lower c"
  by (simp add: starts_with_def same_text_def)

lemma matches_Score_Nil:
  assumes "space c"
  shows "matches True (Seq (Lit ''Score'') r) (c # t) = []"
proof -
  have "lower (CHR ''S'') = CHR ''s''" by (simp add: lower_def char_of_def)
  then have "\<not> starts_with True ''Score'' (c # t)"
    using space_lower [OF assms] space_not_letter(1) [OF assms]
      starts_with_Cons [of "CHR ''S''" "''core''" c t]
    by auto
  then show ?thesis by (simp add: matches_Seq_Lit)
qed

lemma matches_Total_Nil:
  assumes "space c"
  shows "matches True (Seq (Lit ''Total'') r) (c # t) = []"
proof -
  have "lower (CHR ''T'') = CHR ''t''" by (simp add: lower_def char_of_def)
  then have "\<not> starts_with True ''Total'' (c # t)"
    using space_lower [OF assms] space_not_letter(2) [OF assms]
      starts_with_Cons [of "CHR ''T''" "''otal''" c t]
    by auto
  then show ?thesis by (simp add: matches_Seq_Lit)
qed

lemma first_match_after_label:
  assumes "\<And>c t. space c \<Longrightarrow> matches True (Seq (Lit l2) r) (c # t) = []"
  shows "first_match True (Seq (Lit l1) (Seq (Star space) (Seq (Lit l2) r))) s =
     (case split_label l1 l2 s of
        None \<Rightarrow> None
      | Some (w, t) \<Rightarrow> map_option (prepend w) (first_match True r t))"
proof -
  have p: "prepend a (prepend b m) = prepend (a @ b) m" for a b m
    by (cases m) (simp add: prepend_def)
  have star: "first_match True (Seq (Star space) (Seq (Lit l2) r)) u =
      map_option (prepend (takeWhile space u)) (first_match True (Seq (Lit l2) r) (dropWhile space u))"
    for u
    by (rule first_match_Seq_Star) (rule assms)
  show ?thesis
    by (auto simp: first_match_Seq_Lit star split_label_def Let_def option.map_comp comp_def p
          intro!: map_option_cong [OF refl])
qed

lemma first_match_simple_pattern:
  "first_match True (simple_pattern label) s =
     (case split_label label ''Score'' s of
        None \<Rightarrow> None
      | Some (w, t) \<Rightarrow>
          (case dropWhile (\<lambda>c. \<not> digit c) t of
             [] \<Rightarrow> None
           | d # ds \<Rightarrow>
               Some (w @ takeWhile (\<lambda>c. \<not> digit c) t @ take_number (d # ds),
                     Some (take_number (d # ds)),
                     drop (length (take_number (d # ds))) (d # ds))))"
proof -
  have lz: "first_match True (Seq (StarLazy (\<lambda>c. \<not> digit c)) number_rx) u =
      map_option (prepend (takeWhile (\<lambda>c. \<not> digit c) u))
        (first_match True number_rx (dropWhile (\<lambda>c. \<not> digit c) u))" for u
    by (rule first_match_Seq_StarLazy) (simp add: matches_number_rx_Nil)
  have lazy: "first_match True (Seq (StarLazy (\<lambda>c. \<not> digit c)) number_rx) t =
      (case dropWhile (\<lambda>c. \<not> digit c) t of
         [] \<Rightarrow> None
       | d # ds \<Rightarrow>
           Some (takeWhile (\<lambda>c. \<not> digit c) t @ take_number (d # ds),
                 Some (take_number (d # ds)),
                 drop (length (take_number (d # ds))) (d # ds)))" for t
  proof (cases "dropWhile (\<lambda>c. \<not> digit c) t")
    case Nil
    show ?thesis
      unfolding lz Nil first_match_number_rx by simp
  next
    case (Cons d ds)
    have "digit d" using hd_dropWhile [of "\<lambda>c. \<not> digit c" t] Cons by auto
    then show ?thesis
      unfolding lz Cons first_match_number_rx by (simp add: prepend_def)
  qed
  have "first_match True (simple_pattern label) s =
      (case split_label label ''Score'' s of
         None \<Rightarrow> None
       | Some (w, t) \<Rightarrow>
           map_option (prepend w) (first_match True (Seq (StarLazy (\<lambda>c. \<not> digit c)) number_rx) t))"
    unfolding simple_pattern_def by (rule first_match_after_label) (rule matches_Score_Nil)
  then show ?thesis
    by (cases "split_label label ''Score'' s")
       (auto simp: lazy prepend_def split: list.splits simp del: dropWhile_eq_Nil_conv)
qed

declare re_search.simps [simp del]

lemma digit_lower: "digit c \<Longrightarrow> lower c = c"
  by (auto simp: digit_def lower_def)

lemma space_not_digit: "space c \<Longrightarrow> \<not> digit c"
  by (auto simp: space_def digit_def)

lemma split_label_append:
  assumes "split_label l1 l2 s = Some (w, t)"
  shows "s = w @ t"
proof -
  have "s = take (length l1) s @ drop (length l1) s" by simp
  also have "drop (length l1) s =
      takeWhile space (drop (length l1) s) @ dropWhile space (drop (length l1) s)"
    by simp
  also have "dropWhile space (drop (length l1) s) =
      take (length l2) (dropWhile space (drop (length l1) s))
      @ drop (length l2) (dropWhile space (drop (length l1) s))"
    by simp
  finally show ?thesis
    using assms by (auto simp: split_label_def Let_def split: if_splits)
qed

lemma same_text_no_digit:
  assumes "map lower l = map lower x" "\<forall>c\<in>set (map lower l). \<not> digit c"
  shows "\<forall>c\<in>set x. \<not> digit c"
proof
  fix c assume c: "c \<in> set x"
  show "\<not> digit c"
  proof
    assume "digit c"
    then have "lower c = c" by (rule digit_lower)
    then have "c \<in> set (map lower x)" using c by force
    then show False using assms \<open>digit c\<close> by auto
  qed
qed

lemma split_label_no_digit:
  assumes "split_label l1 l2 s = Some (w, t)"
    and "\<forall>c\<in>set (map lower l1). \<not> digit c" "\<forall>c\<in>set (map lower l2). \<not> digit c"
  shows "\<forall>c\<in>set w. \<not> digit c"
proof -
  let ?t0 = "dropWhile space (drop (length l1) s)"
  from assms(1) have w: "w = take (length l1) s @ takeWhile space (drop (length l1) s) @ take (length l2) ?t0"
    and a: "map lower l1 = map lower (take (length l1) s)"
    and b: "map lower l2 = map lower (take (length l2) ?t0)"
    by (auto simp: split_label_def Let_def starts_with_def same_text_def split: if_splits)
  have 1: "\<forall>c\<in>set (take (length l1) s). \<not> digit c"
    using a assms(2) by (rule same_text_no_digit)
  have 2: "\<forall>c\<in>set (take (length l2) ?t0). \<not> digit c"
    using b assms(3) by (rule same_text_no_digit)
  have 3: "\<forall>c\<in>set (takeWhile space (drop (length l1) s)). \<not> digit c"
    using space_not_digit by (auto dest: set_takeWhileD)
  show ?thesis unfolding w using 1 2 3 by auto
qed

lemma first_number_None: "first_number t = None \<longleftrightarrow> (\<forall>c\<in>set t. \<not> digit c)"
proof (cases "dropWhile (\<lambda>c. \<not> digit c) t")
  case Nil
  then have "\<forall>c\<in>set t. \<not> digit c" by simp
  then show ?thesis unfolding first_number_def Nil by simp
next
  case (Cons d ds)
  have "digit d" using hd_dropWhile [of "\<lambda>c. \<not> digit c" t] Cons by auto
  moreover have "d \<in> set t" using set_dropWhileD [of d "\<lambda>c. \<not> digit c" t] Cons by simp
  ultimately show ?thesis using Cons by (auto simp: first_number_def)
qed

lemma re_search_simple_no_digit:
  "\<forall>c\<in>set s. \<not> digit c \<Longrightarrow> re_search True (simple_pattern label) s = None"
proof (induction s)
  case Nil
  then show ?case
    by (simp add: re_search_first_match first_match_simple_pattern split_label_def starts_with_def)
next
  case (Cons c cs)
  have "first_match True (simple_pattern label) (c # cs) = None"
  proof (cases "split_label label ''Score'' (c # cs)")
    case None
    then show ?thesis by (simp add: first_match_simple_pattern)
  next
    case (Some p)
    obtain w t where p: "p = (w, t)" by (cases p)
    have "c # cs = w @ t" using Some p split_label_append by blast
    then have "set t \<subseteq> set (c # cs)" by (metis set_append Un_upper2)
    then have "dropWhile (\<lambda>c. \<not> digit c) t = []" using Cons.prems by auto
    then show ?thesis
      by (simp add: first_match_simple_pattern Some p del: dropWhile_eq_Nil_conv)
  qed
  then show ?case using Cons by (simp add: re_search_first_match)
qed

lemma Score_no_digit: "\<forall>c\<in>set (map lower ''Score''). \<not> digit c"
  by (simp add: lower_def char_of_def digit_def)

lemma re_search_simple_pattern:
  assumes "\<forall>c\<in>set (map lower label). \<not> digit c"
  shows "map_option snd (re_search True (simple_pattern label) s) =
     (case after_first_label label ''Score'' s of
        None \<Rightarrow> None
      | Some t \<Rightarrow> map_option Some (first_number t))"
proof (induction s)
  case Nil
  show ?case
    by (simp add: re_search_first_match first_match_simple_pattern split_label_def starts_with_def)
next
  case (Cons c cs)
  show ?case
  proof (cases "split_label label ''Score'' (c # cs)")
    case None
    then show ?thesis
      using Cons by (simp add: re_search_first_match first_match_simple_pattern)
  next
    case (Some p)
    obtain w t where p: "p = (w, t)" by (cases p)
    note sl = Some [unfolded p]
    show ?thesis
    proof (cases "dropWhile (\<lambda>c. \<not> digit c) t")
      case Nil
      then have t: "\<forall>c\<in>set t. \<not> digit c" by simp
      have "\<forall>c\<in>set w. \<not> digit c"
        using sl assms Score_no_digit by (rule split_label_no_digit)
      moreover have "c # cs = w @ t" using sl by (rule split_label_append)
      ultimately have "\<forall>x\<in>set (c # cs). \<not> digit x" using t by auto
      then have "re_search True (simple_pattern label) cs = None"
        by (intro re_search_simple_no_digit) simp
      then show ?thesis
        using Nil t by (simp add: re_search_first_match first_match_simple_pattern sl
            first_number_None del: dropWhile_eq_Nil_conv)
    next
      case (Cons d ds)
      then show ?thesis
        by (simp add: re_search_first_match first_match_simple_pattern sl first_number_def)
    qed
  qed
qed

lemma simple_score_eq:
  assumes "\<forall>c\<in>set (map lower label). \<not> digit c"
  shows "simple_score label clean =
     (case after_first_label label ''Score'' clean of
        None \<Rightarrow> Inr 50
      | Some t \<Rightarrow> (case first_number t of None \<Rightarrow> Inr 50 | Some tok \<Rightarrow> score_of tok))"
  using re_search_simple_pattern [OF assms, of clean]
  by (auto simp: simple_score_def group_score_def split: option.splits)

lemma first_match_weighted_total_rx:
  "map_option fst (first_match True weighted_total_rx s) = label_line_at s"
proof -
  have "first_match True weighted_total_rx s =
      (case split_label ''Weighted'' ''Total'' s of
         None \<Rightarrow> None
       | Some (w, t) \<Rightarrow> map_option (prepend w) (first_match True (Plus (\<lambda>c. c \<noteq> CHR 0x0A)) t))"
    unfolding weighted_total_rx_def by (rule first_match_after_label) (rule matches_Total_Nil)
  then show ?thesis
    by (cases "split_label ''Weighted'' ''Total'' s")
       (auto simp: label_line_at_def first_match_Plus prepend_def)
qed

lemma re_search_weighted_total_rx:
  "map_option fst (re_search True weighted_total_rx s) = label_line s"
proof (induction s)
  case Nil
  show ?case
    using first_match_weighted_total_rx [of "[]", symmetric]
    by (cases "first_match True weighted_total_rx []") (auto simp: re_search_first_match)
next
  case (Cons c cs)
  show ?case
    using first_match_weighted_total_rx [of "c # cs", symmetric] Cons
    by (cases "first_match True weighted_total_rx (c # cs)") (auto simp: re_search_first_match)
qed

lemma first_number_Cons:
  "first_number (c # cs) = (if digit c then Some (take_number (c # cs)) else first_number cs)"
  by (simp add: first_number_def)

lemma takeWhile_digit_Nil: "takeWhile digit (c # cs) = [] \<longleftrightarrow> \<not> digit c"
  by simp

lemma re_search_number_rx:
  "map_option snd (re_search ic number_rx s) = map_option Some (first_number s)"
proof (induction s)
  case Nil
  show ?case
    by (simp add: re_search_first_match first_match_number_rx first_number_def)
next
  case (Cons c cs)
  then show ?case
    by (simp add: re_search_first_match first_match_number_rx first_number_Cons
          del: takeWhile.simps add: takeWhile_digit_Nil)
qed

lemma number_rx_alternatives:
  assumes "m \<in> set (matches ic number_rx s)"
  shows "m = (take_number s, Some (take_number s), drop (length (take_number s)) s)
         \<or> (\<exists>c u. snd (snd m) = c # u \<and> (digit c \<or> c = CHR ''.''))"
proof -
  let ?ip = "takeWhile digit s" and ?r = "dropWhile digit s"
  from assms obtain w g t where wgt: "(w, g, t) \<in> set (matches ic (Seq (Plus digit) (Opt (Seq (Lit ''.'') (Plus digit)))) s)"
    and m: "m = (w, Some w, t)"
    unfolding number_rx_def set_matches_Group by blast
  from wgt obtain k where k: "1 \<le> k" "k \<le> length ?ip"
    and d: "(w, g, t) = (take k s, None, drop k s)
      \<or> (\<exists>u j. drop k s = CHR ''.'' # u \<and> 1 \<le> j \<and> j \<le> length (takeWhile digit u)
             \<and> (w, g, t) = (take k s @ CHR ''.'' # take j u, None, drop j u))"
    unfolding set_matches_digits_fraction by blast
  have ne: "?ip \<noteq> []" using k by auto
  have fm: "first_match ic number_rx s =
      Some (take_number s, Some (take_number s), drop (length (take_number s)) s)"
    using ne by (simp add: first_match_number_rx)
  show ?thesis
  proof (cases "k < length ?ip")
    case True
    then obtain c u where cu: "drop k s = c # u" "digit c"
      using drop_in_takeWhile by blast
    from d show ?thesis
    proof
      assume "(w, g, t) = (take k s, None, drop k s)"
      then show ?thesis using cu m by auto
    next
      assume "\<exists>u j. drop k s = CHR ''.'' # u \<and> 1 \<le> j \<and> j \<le> length (takeWhile digit u)
             \<and> (w, g, t) = (take k s @ CHR ''.'' # take j u, None, drop j u)"
      then show ?thesis using cu digit_not_dot by auto
    qed
  next
    case False
    then have kk: "k = length ?ip" using k by simp
    have tk: "take k s = ?ip" "drop k s = ?r"
      by (simp_all add: kk takeWhile_eq_take_length dropWhile_eq_drop_length)
    from d show ?thesis
    proof
      assume a: "(w, g, t) = (take k s, None, drop k s)"
      show ?thesis
      proof (cases "\<exists>d u. ?r = CHR ''.'' # d # u \<and> digit d")
        case True
        then show ?thesis using a m tk by auto
      next
        case no: False
        then have "take_number s = ?ip" by (intro take_number_plain) auto
        then show ?thesis
          using a m tk by (simp add: dropWhile_eq_drop_length)
      qed
    next
      assume "\<exists>u j. drop k s = CHR ''.'' # u \<and> 1 \<le> j \<and> j \<le> length (takeWhile digit u)
             \<and> (w, g, t) = (take k s @ CHR ''.'' # take j u, None, drop j u)"
      then obtain u j where u: "drop k s = CHR ''.'' # u" "1 \<le> j" "j \<le> length (takeWhile digit u)"
        and a: "(w, g, t) = (take k s @ CHR ''.'' # take j u, None, drop j u)"
        by blast
      show ?thesis
      proof (cases "j < length (takeWhile digit u)")
        case True
        then obtain c v where "drop j u = c # v" "digit c"
          using drop_in_takeWhile by blast
        then show ?thesis using a m by auto
      next
        case False
        then have jj: "j = length (takeWhile digit u)" using u by simp
        have "takeWhile digit u \<noteq> []" using u jj by auto
        then obtain d u' where du: "u = d # u'" "digit d"
          by (cases u) (auto split: if_splits)
        have r: "?r = CHR ''.'' # d # u'" using u(1) tk du by simp
        have tok: "take_number s = ?ip @ CHR ''.'' # takeWhile digit (d # u')"
          using r du(2) by (rule take_number_fraction)
        have w: "w = take_number s"
          using a tk by (simp add: tok jj du(1) [symmetric] takeWhile_eq_take_length)
        have "first_match ic number_rx s \<noteq> None" using fm by simp
        have "s = w @ t"
        proof -
          have "s = take k s @ drop k s" by simp
          also have "drop k s = CHR ''.'' # take j u @ drop j u" using u(1) by simp
          finally show ?thesis using a by simp
        qed
        then have "t = drop (length w) s" by simp
        then show ?thesis using m w by simp
      qed
    qed
  qed
qed

lemma slash100_follows_Cons:
  "digit c \<or> c = CHR ''.'' \<Longrightarrow> \<not> slash100_follows (c # u)"
  by (auto simp: slash100_follows_def space_def digit_def)

lemma first_match_slash100_tail:
  "first_match False (Seq (Star space) (Seq (Lit ''/'') (Seq (Star space) (Lit ''100'')))) t =
     (case dropWhile space t of
        [] \<Rightarrow> None
      | c # u \<Rightarrow>
          if c = CHR ''/'' \<and> starts_with False ''100'' (dropWhile space u)
          then Some (takeWhile space t @ ''/'' @ takeWhile space u @ ''100'', None,
                     drop 3 (dropWhile space u))
          else None)"
proof -
  have l100: "first_match False (Lit ''100'') y =
      (if starts_with False ''100'' y then Some (take 3 y, None, drop 3 y) else None)" for y
    by (auto simp: first_match_def matches.simps starts_with_def numeral_3_eq_3)
  have t2: "first_match False (Seq (Star space) (Lit ''100'')) x =
      map_option (prepend (takeWhile space x)) (first_match False (Lit ''100'') (dropWhile space x))" for x
    by (rule first_match_Seq_Star)
       (use space_not_letter(4) in \<open>auto simp: matches.simps same_text_def\<close>)
  have tl: "first_match False (Seq (Star space) (Seq (Lit ''/'') (Seq (Star space) (Lit ''100'')))) t =
      map_option (prepend (takeWhile space t))
        (first_match False (Seq (Lit ''/'') (Seq (Star space) (Lit ''100''))) (dropWhile space t))"
    by (rule first_match_Seq_Star)
       (use space_not_letter(3) in \<open>auto simp: matches_Seq_Lit starts_with_def same_text_def\<close>)
  have s100: "starts_with False ''100'' y \<Longrightarrow> take 3 y = ''100''" for y
    by (simp add: starts_with_def same_text_def numeral_3_eq_3)
  show ?thesis
  proof (cases "dropWhile space t")
    case Nil
    show ?thesis unfolding tl Nil first_match_Seq_Lit by (simp add: starts_with_def)
  next
    case (Cons c u)
    show ?thesis
      unfolding tl Cons first_match_Seq_Lit t2 l100
      by (auto simp: starts_with_def same_text_def prepend_def numeral_3_eq_3)
  qed
qed

lemma first_match_slash100_tail_None:
  "first_match False (Seq (Star space) (Seq (Lit ''/'') (Seq (Star space) (Lit ''100'')))) t = None
     \<longleftrightarrow> \<not> slash100_follows t"
  unfolding first_match_slash100_tail slash100_follows_def
  by (cases "dropWhile space t") (simp_all del: dropWhile_eq_Nil_conv)

lemma first_match_slash100_tail_group:
  "first_match False (Seq (Star space) (Seq (Lit ''/'') (Seq (Star space) (Lit ''100'')))) t = Some m
     \<Longrightarrow> fst (snd m) = None"
  unfolding first_match_slash100_tail
  by (cases "dropWhile space t") (auto simp del: dropWhile_eq_Nil_conv split: if_splits)

lemma first_match_slash100_rx:
  "map_option (\<lambda>m. fst (snd m)) (first_match False slash100_rx s) =
     (if takeWhile digit s \<noteq> [] \<and> slash100_follows (drop (length (take_number s)) s)
      then Some (Some (take_number s)) else None)"
proof (cases "takeWhile digit s = []")
  case True
  then have "matches False number_rx s = []"
    using first_match_number_rx [of False s] by (simp add: first_match_None_iff)
  then have "matches False slash100_rx s = []"
    by (simp add: slash100_rx_def matches.simps)
  then show ?thesis using True by (simp add: first_match_def)
next
  case False
  let ?tail = "Seq (Star space) (Seq (Lit ''/'') (Seq (Star space) (Lit ''100'')))"
  let ?g = "(take_number s, Some (take_number s), drop (length (take_number s)) s)"
  let ?F = "\<lambda>m1. map (join_match m1) (matches False ?tail (snd (snd m1)))"
  have "first_match False number_rx s = Some ?g"
    using False by (simp add: first_match_number_rx)
  then obtain ms where ms: "matches False number_rx s = ?g # ms"
    by (auto simp: first_match_def split: list.splits)
  show ?thesis
  proof (cases "slash100_follows (drop (length (take_number s)) s)")
    case no: False
    then have g0: "matches False ?tail (drop (length (take_number s)) s) = []"
      using first_match_slash100_tail_None first_match_None_iff by blast
    have "?F m = []" if "m \<in> set (matches False number_rx s)" for m
    proof -
      from number_rx_alternatives [OF that] show ?thesis
      proof
        assume "m = ?g"
        then show ?thesis using g0 by simp
      next
        assume "\<exists>c u. snd (snd m) = c # u \<and> (digit c \<or> c = CHR ''.'')"
        then obtain c u where cu: "snd (snd m) = c # u" "digit c \<or> c = CHR ''.''" by blast
        then have "\<not> slash100_follows (snd (snd m))"
          using slash100_follows_Cons by simp
        then have "matches False ?tail (snd (snd m)) = []"
          using first_match_slash100_tail_None first_match_None_iff by blast
        then show ?thesis by simp
      qed
    qed
    then have "concat (map ?F (matches False number_rx s)) = []"
      by (rule concat_all_Nil)
    then have "matches False slash100_rx s = []"
      by (simp add: slash100_rx_def matches.simps)
    then show ?thesis using no by (simp add: first_match_def)
  next
    case yes: True
    then have ne: "matches False ?tail (snd (snd ?g)) \<noteq> []"
      using first_match_slash100_tail_None first_match_None_iff by auto
    then obtain m2 where m2: "first_match False ?tail (snd (snd ?g)) = Some m2"
      by (cases "matches False ?tail (snd (snd ?g))") (simp_all add: first_match_def)
    have "first_match False slash100_rx s = Some (join_match ?g m2)"
      using first_match_Seq_Cons [OF ms ne] m2 by (simp add: slash100_rx_def)
    moreover have "fst (snd m2) = None"
      using m2 by (rule first_match_slash100_tail_group)
    ultimately show ?thesis
      using False yes by (cases m2) (simp add: join_match_def)
  qed
qed

lemma re_search_slash100_rx:
  "map_option snd (re_search False slash100_rx s) = map_option Some (slash100_number s)"
proof (induction s)
  case Nil
  show ?case
    using first_match_slash100_rx [of "[]"]
    by (cases "first_match False slash100_rx []") (auto simp: re_search_first_match)
next
  case (Cons c cs)
  show ?case
    using first_match_slash100_rx [of "c # cs"] Cons
    by (cases "first_match False slash100_rx (c # cs)")
       (auto simp: re_search_first_match split: if_splits)
qed

declare numbers.simps [simp del]

lemma findall_from_skip:
  "k \<le> length s \<Longrightarrow> findall_from k ic r s = findall_from 0 ic r (drop k s)"
proof (induction k arbitrary: s)
  case 0
  show ?case by simp
next
  case (Suc k)
  then obtain c cs where s: "s = c # cs" by (cases s) auto
  show ?case using Suc by (simp add: s)
qed

lemma take_number_length: "length (take_number s) \<le> length s"
proof (cases "\<exists>d u. dropWhile digit s = CHR ''.'' # d # u \<and> digit d")
  case True
  then obtain d u where du: "dropWhile digit s = CHR ''.'' # d # u" "digit d" by blast
  have "s = takeWhile digit s @ CHR ''.'' # d # u"
    using du(1) takeWhile_dropWhile_id [of digit s] by simp
  then have "length s = length (takeWhile digit s) + Suc (Suc (length u))"
    by (metis length_append length_Cons)
  moreover have "length (takeWhile digit u) \<le> length u"
    by (rule length_takeWhile_le)
  ultimately show ?thesis
    using du by (simp add: take_number_fraction)
next
  case False
  then have "take_number s = takeWhile digit s"
    by (intro take_number_plain) auto
  then show ?thesis by (simp add: length_takeWhile_le)
qed

lemma take_number_not_Nil: "digit c \<Longrightarrow> take_number (c # cs) \<noteq> []"
  by (auto simp: take_number_def Let_def split: list.splits)

lemma numbers_Cons:
  "numbers (c # cs) =
     (if digit c then take_number (c # cs) # numbers (drop (length (take_number (c # cs)) - 1) cs)
      else numbers cs)"
proof (cases "digit c")
  case True
  obtain x xs where tn: "take_number (c # cs) = x # xs"
    using take_number_not_Nil [OF True, of cs] by (cases "take_number (c # cs)") auto
  show ?thesis
    using True by (subst numbers.simps) (simp add: tn)
next
  case False
  have "numbers (c # cs) = numbers cs"
    using False by (subst numbers.simps, subst (2) numbers.simps) simp
  then show ?thesis using False by simp
qed

lemma numbers_Nil: "numbers [] = []"
  by (subst numbers.simps) simp

lemma findall_number_rx: "re_findall ic number_rx s = numbers s"
proof -
  have "findall_from 0 ic number_rx s = numbers s"
  proof (induction s rule: length_induct)
    case (1 s)
    show ?case
    proof (cases s)
      case Nil
      have "matches ic number_rx [] = []"
        using first_match_number_rx [of ic "[]"] by (simp add: first_match_None_iff)
      then show ?thesis by (simp add: Nil numbers_Nil)
    next
      case (Cons c cs)
      show ?thesis
      proof (cases "digit c")
        case False
        have "findall_from 0 ic number_rx cs = numbers cs"
          using 1 by (simp add: Cons)
        then show ?thesis
          using False by (simp add: Cons matches_number_rx_Nil numbers_Cons)
      next
        case True
        let ?tn = "take_number (c # cs)"
        have "first_match ic number_rx (c # cs) = Some (?tn, Some ?tn, drop (length ?tn) (c # cs))"
          using True by (simp add: first_match_number_rx)
        then obtain ms where ms:
          "matches ic number_rx (c # cs) = (?tn, Some ?tn, drop (length ?tn) (c # cs)) # ms"
          by (cases "matches ic number_rx (c # cs)") (simp_all add: first_match_def)
        have le: "length ?tn - 1 \<le> length cs"
          using take_number_length [of "c # cs"] by simp
        have "findall_from 0 ic number_rx (drop (length ?tn - 1) cs)
                = numbers (drop (length ?tn - 1) cs)"
          using 1 by (simp add: Cons)
        then have "findall_from (length ?tn - 1) ic number_rx cs
                = numbers (drop (length ?tn - 1) cs)"
          using findall_from_skip [OF le] by simp
        then show ?thesis
          using True by (simp add: Cons ms numbers_Cons)
      qed
    qed
  qed
  then show ?thesis by (simp add: re_findall_def)
qed

lemma rfind_after_last:
  "(x \<notin> set L \<longrightarrow> rfind L x = - 1) \<and>
   (x \<in> set L \<longrightarrow> 0 \<le> rfind L x \<and> drop (nat (rfind L x)) L = x # after_last x L)"
proof (induction L)
  case Nil
  show ?case by simp
next
  case (Cons c cs)
  show ?case
  proof (cases "x \<in> set cs")
    case True
    then have "takeWhile (\<lambda>c. c \<noteq> x) (rev cs @ [c]) = takeWhile (\<lambda>c. c \<noteq> x) (rev cs)"
      by (simp add: takeWhile_append1 [of x])
    then have "after_last x (c # cs) = after_last x cs"
      by (simp add: after_last_def)
    moreover have "0 \<le> rfind cs x"
      using Cons True by simp
    then have "nat (rfind cs x + 1) = Suc (nat (rfind cs x))"
      by linarith
    ultimately show ?thesis using Cons True by (simp add: Let_def)
  next
    case False
    then have "takeWhile (\<lambda>c. c \<noteq> x) (rev cs @ [x]) = rev cs @ takeWhile (\<lambda>c. c \<noteq> x) [x]"
      by (intro takeWhile_append2) auto
    then have "takeWhile (\<lambda>c. c \<noteq> x) (rev cs @ [x]) = rev cs"
      by simp
    then have "after_last x (x # cs) = cs"
      by (simp add: after_last_def)
    then show ?thesis using Cons False by (auto simp: Let_def)
  qed
qed

lemma rfind_absent: "rfind L x = - 1 \<longleftrightarrow> x \<notin> set L"
  using rfind_after_last [of x L] by auto

lemma rfind_drop: "x \<in> set L \<Longrightarrow> drop (nat (rfind L x)) L = x # after_last x L"
  using rfind_after_last [of x L] by simp

lemma numbers_after_eq: "numbers (CHR ''='' # t) = numbers t"
  by (simp add: numbers_Cons digit_def)

lemma weighted_total_score_eq:
  "weighted_total_score clean =
     (case label_line clean of None \<Rightarrow> Inr 50 | Some L \<Rightarrow> line_total L)"
proof (cases "re_search True weighted_total_rx clean")
  case None
  then have "label_line clean = None"
    using re_search_weighted_total_rx [of clean] by simp
  then show ?thesis by (simp add: weighted_total_score_def None)
next
  case (Some m)
  let ?L = "fst m"
  have L: "label_line clean = Some ?L"
    using re_search_weighted_total_rx [of clean] Some by simp
  have "(case re_search False slash100_rx ?L of
           Some score_match \<Rightarrow> group_score score_match
         | None \<Rightarrow>
             (let last_eq = rfind ?L (CHR ''='') in
              if last_eq \<noteq> - 1 then
                (let after_eq = drop (nat last_eq) ?L;
                     nums = re_findall False number_rx after_eq
                 in if nums \<noteq> [] then score_of (last nums) else Inr 50)
              else
                (case re_search False number_rx ?L of
                   Some num_match \<Rightarrow> group_score num_match
                 | None \<Rightarrow> Inr 50))) = line_total ?L"
  proof (cases "re_search False slash100_rx ?L")
    case sm: (Some sm)
    then have "map_option Some (slash100_number ?L) = Some (snd sm)"
      using re_search_slash100_rx [of ?L] by simp
    then obtain tok where "slash100_number ?L = Some tok" "snd sm = Some tok"
      by (cases "slash100_number ?L") auto
    then show ?thesis by (simp add: sm line_total_def group_score_def)
  next
    case no: None
    then have sn: "slash100_number ?L = None"
      using re_search_slash100_rx [of ?L] by simp
    show ?thesis
    proof (cases "CHR ''='' \<in> set ?L")
      case True
      then have "re_findall False number_rx (drop (nat (rfind ?L (CHR ''=''))) ?L)
                   = numbers (after_last (CHR ''='') ?L)"
        by (simp add: findall_number_rx rfind_drop numbers_after_eq)
      then show ?thesis
        using True by (simp add: no sn line_total_def rfind_absent Let_def split: list.splits)
    next
      case False
      have "(case re_search False number_rx ?L of
               Some num_match \<Rightarrow> group_score num_match
             | None \<Rightarrow> Inr 50)
            = (case first_number ?L of None \<Rightarrow> Inr 50 | Some tok \<Rightarrow> score_of tok)"
        using re_search_number_rx [of False ?L]
        by (cases "re_search False number_rx ?L"; cases "first_number ?L")
           (auto simp: group_score_def)
      then show ?thesis
        using False by (simp add: no sn line_total_def rfind_absent)
    qed
  qed
  then show ?thesis by (simp add: weighted_total_score_def Some L)
qed

lemma rn_dyadic:
  assumes "0 < m" "m < 2 ^ 53"
  shows "rn (of_int m / 2) = Finite (of_int m / 2)"
proof -
  let ?x = "of_int m / 2 :: rat"
  have x: "0 < ?x" using assms(1) by simp
  define e where "e = ilog2 ?x"
  have b: "pow2 e \<le> ?x" "?x < pow2 (e + 1)"
    using ilog2_bounds [OF x] by (auto simp: e_def)
  have "(of_int m :: rat) < of_int (2 ^ 53)"
    using assms(2) by (simp only: of_int_less_iff)
  then have "?x < pow2 52" by (simp add: pow2_def)
  then have "pow2 e < pow2 52" using b(1) by linarith
  then have hi: "e < 52" by (simp add: pow2_less_iff)
  have "(of_int 1 :: rat) \<le> of_int m"
    using assms(1) by (simp only: of_int_le_iff)
  then have "pow2 (- 1) \<le> ?x" by (simp add: pow2_def)
  then have "pow2 (- 1) < pow2 (e + 1)" using b(2) by linarith
  then have lo: "- 1 \<le> e" by (simp add: pow2_less_iff)
  have n: "nat (52 - e) = Suc (nat (51 - e))" using hi by linarith
  have "pow2 (e - 52) = 1 / 2 ^ nat (52 - e)"
    using hi by (simp add: pow2_def)
  then have k: "?x / pow2 (e - 52) = of_int (m * 2 ^ nat (51 - e))"
    by (simp add: n)
  have r: "- 1022 \<le> e" "e < 1024" using lo hi by auto
  show ?thesis
    by (rule rn_exact [OF x b r k])
qed

lemma rn_of_int:
  assumes "0 \<le> n" "n < 2 ^ 52"
  shows "rn (of_int n) = Finite (of_int n)"
proof (cases "n = 0")
  case True
  then show ?thesis by (simp add: rn_def)
next
  case False
  then have "rn (of_int (2 * n) / 2) = Finite (of_int (2 * n) / 2)"
    using assms by (intro rn_dyadic) auto
  then show ?thesis by simp
qed

lemma rn_half:
  assumes "0 \<le> n" "n < 2 ^ 52"
  shows "rn (of_int n + 1 / 2) = Finite (of_int n + 1 / 2)"
proof -
  have r: "rn (of_int (2 * n + 1) / 2) = Finite (of_int (2 * n + 1) / 2)"
    using assms by (intro rn_dyadic) auto
  have e: "(of_int (2 * n + 1) / 2 :: rat) = of_int n + 1 / 2"
    by (simp add: field_simps)
  show ?thesis using r unfolding e .
qed

lemma score_of_int:
  assumes "is_decimal tok" "decimal_value tok = of_int n" "0 \<le> n" "n < 2 ^ 52"
  shows "score_of tok = Inr (min 100 n)"
  using assms
  by (simp add: score_of_def py_float_def bind_result_def rn_of_int round_half_even_of_int)

lemma score_of_half:
  assumes "is_decimal tok" "decimal_value tok = of_int n + 1 / 2" "0 \<le> n" "n < 2 ^ 52"
  shows "score_of tok = Inr (min 100 (if even n then n else n + 1))"
  using assms
  by (simp add: score_of_def py_float_def bind_result_def rn_half round_half_even_tie)

lemma score_of_overflow:
  assumes "is_decimal tok" "2 ^ 1024 \<le> decimal_value tok"
  shows "score_of tok = Inl OverflowError"
  using assms
  by (simp add: score_of_def py_float_def bind_result_def rn_overflow)

lemma score_of_range:
  assumes "score_of tok = Inr n"
  shows "0 \<le> n \<and> n \<le> 100"
proof (cases "py_float tok")
  case (Inl e)
  then show ?thesis using assms by (simp add: score_of_def bind_result_def)
next
  case (Inr x)
  then show ?thesis
    using assms by (cases "py_round x") (auto simp: score_of_def bind_result_def)
qed

lemma score_of_65: "score_of ''65'' = Inr 65"
  using score_of_int [of "''65''" 65]
  by (simp add: is_decimal_def decimal_value_def digit_def int_of_digits_def digit_val_def)


lemma score_of_61_5: "score_of ''61.5'' = Inr 62"
  using score_of_half [of "''61.5''" 61]
  by (simp add: is_decimal_def decimal_value_def digit_def int_of_digits_def digit_val_def)

lemma score_of_62_5: "score_of ''62.5'' = Inr 62"
  using score_of_half [of "''62.5''" 62]
  by (simp add: is_decimal_def decimal_value_def digit_def int_of_digits_def digit_val_def)

lemma label_Reach: "\<forall>c\<in>set (map lower ''Reach''). \<not> digit c"
  by (simp add: lower_def char_of_def digit_def)

lemma label_Engagement: "\<forall>c\<in>set (map lower ''Engagement''). \<not> digit c"
  by (simp add: lower_def char_of_def digit_def)

lemma label_Virality: "\<forall>c\<in>set (map lower ''Virality''). \<not> digit c"
  by (simp add: lower_def char_of_def digit_def)

lemma simple_score_labels:
  "simple_score ''Reach'' clean = token_score (number_after_label ''Reach'' clean)"
  "simple_score ''Engagement'' clean = token_score (number_after_label ''Engagement'' clean)"
  "simple_score ''Virality'' clean = token_score (number_after_label ''Virality'' clean)"
  using simple_score_eq [OF label_Reach, of clean] simple_score_eq [OF label_Engagement, of clean]
    simple_score_eq [OF label_Virality, of clean]
  by (simp_all add: token_score_def number_after_label_def split: option.splits)

lemma extract_scores_eq:
  "extract_scores text =
     (let clean = strip_bold text in
      bind_result (token_score (number_after_label ''Reach'' clean)) (\<lambda>r.
      bind_result (token_score (number_after_label ''Engagement'' clean)) (\<lambda>e.
      bind_result (token_score (number_after_label ''Virality'' clean)) (\<lambda>v.
      bind_result (case label_line clean of None \<Rightarrow> Inr 50 | Some L \<Rightarrow> line_total L) (\<lambda>w.
      Inr \<lparr>reach = r, engagement = e, virality = v, weighted_total = w\<rparr>)))))"
  by (simp only: extract_scores_def simple_score_labels weighted_total_score_eq)

lemma extract_scores_fields:
  assumes "extract_scores text = Inr sc"
  shows "token_score (number_after_label ''Reach'' (strip_bold text)) = Inr (reach sc)"
    and "token_score (number_after_label ''Engagement'' (strip_bold text)) = Inr (engagement sc)"
    and "token_score (number_after_label ''Virality'' (strip_bold text)) = Inr (virality sc)"
    and "(case label_line (strip_bold text) of None \<Rightarrow> Inr 50 | Some L \<Rightarrow> line_total L)
           = Inr (weighted_total sc)"
  using assms
  by (auto simp: extract_scores_eq Let_def bind_result_def split: sum.splits)

lemma first_number_Nil: "first_number [] = None"
  by (simp add: first_number_def)

lemmas scan_simps =
  split_label_def starts_with_def same_text_def lower_def char_of_def space_def digit_def
  first_number_Cons first_number_Nil take_number_def label_line_at_def slash100_follows_def
  line_total_def after_last_def numbers_Cons numbers_Nil number_after_label_def
  token_score_def bind_result_def Let_def

subsection \<open>What the extractor returns\<close>

lemma is_decimal_fraction:
  assumes "ip \<noteq> []" "\<forall>x\<in>set ip. digit x" "fp \<noteq> []" "\<forall>x\<in>set fp. digit x"
  shows "is_decimal (ip @ CHR ''.'' # fp)"
proof -
  have nd: "\<not> digit (CHR ''.'')" by (simp add: digit_def)
  have a: "takeWhile digit (ip @ CHR ''.'' # fp) = ip @ takeWhile digit (CHR ''.'' # fp)"
    using assms(2) by (intro takeWhile_append2) auto
  have b: "dropWhile digit (ip @ CHR ''.'' # fp) = dropWhile digit (CHR ''.'' # fp)"
    using assms(2) by (intro dropWhile_append2) auto
  show ?thesis
    unfolding is_decimal_def a b using assms nd by (simp add: list_all_iff)
qed

lemma is_decimal_digits:
  assumes "ip \<noteq> []" "\<forall>x\<in>set ip. digit x"
  shows "is_decimal ip"
proof -
  have t: "takeWhile digit ip = ip" "dropWhile digit ip = []"
    using assms(2) by simp_all
  show ?thesis
    unfolding is_decimal_def t using assms(1) by simp
qed

lemma take_number_decimal:
  assumes "digit c"
  shows "is_decimal (take_number (c # cs))"
proof -
  define ip where "ip = takeWhile digit (c # cs)"
  have ip: "ip \<noteq> []" "\<forall>x\<in>set ip. digit x"
    unfolding ip_def using assms by (auto dest: set_takeWhileD)
  show ?thesis
  proof (cases "\<exists>d u. dropWhile digit (c # cs) = CHR ''.'' # d # u \<and> digit d")
    case True
    then obtain d u where du: "dropWhile digit (c # cs) = CHR ''.'' # d # u" "digit d" by blast
    define fp where "fp = takeWhile digit (d # u)"
    have fp: "fp \<noteq> []" "\<forall>x\<in>set fp. digit x"
      unfolding fp_def using du(2) by (auto dest: set_takeWhileD)
    have "take_number (c # cs) = ip @ CHR ''.'' # fp"
      unfolding ip_def fp_def using du by (rule take_number_fraction)
    then show ?thesis
      using is_decimal_fraction [OF ip fp] by simp
  next
    case False
    then have "take_number (c # cs) = ip"
      unfolding ip_def by (intro take_number_plain) auto
    then show ?thesis
      using is_decimal_digits [OF ip] by simp
  qed
qed

lemma score_of_error:
  assumes "is_decimal tok" "score_of tok = Inl e"
  shows "e = OverflowError"
  using assms
  by (cases "rn (decimal_value tok)") (auto simp: score_of_def py_float_def bind_result_def)

lemma first_number_decimal: "first_number s = Some tok \<Longrightarrow> is_decimal tok"
  by (induction s) (auto simp: first_number_Nil first_number_Cons take_number_decimal split: if_splits)

lemma slash100_number_decimal: "slash100_number L = Some tok \<Longrightarrow> is_decimal tok"
  by (induction L) (auto simp: take_number_decimal split: if_splits)

lemma numbers_decimal: "tok \<in> set (numbers s) \<Longrightarrow> is_decimal tok"
proof (induction s arbitrary: tok rule: length_induct)
  case (1 s)
  show ?case
  proof (cases s)
    case Nil
    then show ?thesis using 1(2) by (simp add: numbers_Nil)
  next
    case (Cons c cs)
    show ?thesis
    proof (cases "digit c")
      case True
      have "length (drop (length (take_number (c # cs)) - 1) cs) < length s"
        by (simp add: Cons)
      then have "\<forall>x\<in>set (numbers (drop (length (take_number (c # cs)) - 1) cs)). is_decimal x"
        using 1(1) by blast
      then show ?thesis
        using 1(2) True by (auto simp: Cons numbers_Cons take_number_decimal)
    next
      case False
      have "length cs < length s"
        by (simp add: Cons)
      then have "\<forall>x\<in>set (numbers cs). is_decimal x"
        using 1(1) by blast
      then show ?thesis using 1(2) False by (auto simp: Cons numbers_Cons)
    qed
  qed
qed

lemma token_score_result:
  assumes "x = None \<or> (\<exists>tok. x = Some tok \<and> is_decimal tok)"
  shows "case token_score x of Inl e \<Rightarrow> e = OverflowError | Inr n \<Rightarrow> 0 \<le> n \<and> n \<le> 100"
  using assms score_of_error score_of_range
  by (auto simp: token_score_def split: sum.splits)

lemma number_after_label_decimal:
  "number_after_label label clean = None
   \<or> (\<exists>tok. number_after_label label clean = Some tok \<and> is_decimal tok)"
  by (auto simp: number_after_label_def first_number_decimal split: option.splits)

lemma line_total_result:
  "case line_total L of Inl e \<Rightarrow> e = OverflowError | Inr n \<Rightarrow> 0 \<le> n \<and> n \<le> 100"
proof (cases "slash100_number L")
  case (Some tok)
  then show ?thesis
    using token_score_result [of "Some tok"] slash100_number_decimal [OF Some]
    by (simp add: line_total_def token_score_def)
next
  case None
  show ?thesis
  proof (cases "CHR ''='' \<in> set L")
    case True
    show ?thesis
    proof (cases "numbers (after_last (CHR ''='') L)")
      case Nil
      then show ?thesis using None True by (simp add: line_total_def)
    next
      case (Cons n ns)
      then have "last (n # ns) \<in> set (numbers (after_last (CHR ''='') L))"
        by (metis last_in_set list.distinct(1))
      then have "is_decimal (last (n # ns))"
        by (rule numbers_decimal)
      then show ?thesis
        using token_score_result [of "Some (last (n # ns))"] None True Cons
        by (simp add: line_total_def token_score_def)
    qed
  next
    case False
    have "first_number L = None \<or> (\<exists>tok. first_number L = Some tok \<and> is_decimal tok)"
      by (cases "first_number L") (auto simp: first_number_decimal)
    then show ?thesis
      using token_score_result [of "first_number L"] None False
      by (simp add: line_total_def token_score_def)
  qed
qed

text \<open>
  Overflow is the only way the extractor fails, and what it returns is four integers in
  0..100.
\<close>

lemma extract_scores_result:
  "case extract_scores text of
     Inl e \<Rightarrow> e = OverflowError
   | Inr sc \<Rightarrow> 0 \<le> reach sc \<and> reach sc \<le> 100 \<and> 0 \<le> engagement sc \<and> engagement sc \<le> 100
              \<and> 0 \<le> virality sc \<and> virality sc \<le> 100
              \<and> 0 \<le> weighted_total sc \<and> weighted_total sc \<le> 100"
proof -
  let ?clean = "strip_bold text"
  note r = token_score_result [OF number_after_label_decimal [of "''Reach''" ?clean]]
  note e = token_score_result [OF number_after_label_decimal [of "''Engagement''" ?clean]]
  note v = token_score_result [OF number_after_label_decimal [of "''Virality''" ?clean]]
  have w: "case (case label_line ?clean of None \<Rightarrow> Inr 50 | Some L \<Rightarrow> line_total L) of
             Inl e \<Rightarrow> e = OverflowError | Inr n \<Rightarrow> 0 \<le> n \<and> n \<le> 100"
    using line_total_result by (cases "label_line ?clean") auto
  show ?thesis
    using r e v w
    by (auto simp: extract_scores_eq Let_def bind_result_def split: sum.splits)
qed

lemma strip_bold_id: "CHR ''*'' \<notin> set s \<Longrightarrow> strip_bold s = s"
  by (induction s rule: strip_bold.induct) auto

lemma int_of_digits_zeros:
  "foldl (\<lambda>acc c. 10 * acc + digit_val c) a (replicate n (CHR ''0'')) = a * 10 ^ n"
  by (induction n arbitrary: a) (simp_all add: digit_val_def)

lemma decimal_value_power_of_ten:
  "is_decimal (CHR ''1'' # replicate n (CHR ''0''))
   \<and> decimal_value (CHR ''1'' # replicate n (CHR ''0'')) = 10 ^ n"
proof -
  have dv: "digit_val (CHR ''1'') = 1"
    by (simp add: digit_val_def)
  show ?thesis
    by (simp add: is_decimal_def decimal_value_def int_of_digits_def int_of_digits_zeros
          digit_def dv)
qed

lemma binary64_limit: "(2 :: rat) ^ 1024 \<le> 10 ^ 309"
  by simp

lemma number_after_Reach_power_of_ten:
  "number_after_label ''Reach'' (''Reach Score: 1'' @ replicate n (CHR ''0''))
     = Some (CHR ''1'' # replicate n (CHR ''0''))"
  by (simp add: scan_simps)

lemma extract_scores_huge:
  assumes "309 \<le> n"
  shows "extract_scores (''Reach Score: 1'' @ replicate n (CHR ''0'')) = Inl OverflowError"
proof -
  let ?tok = "CHR ''1'' # replicate n (CHR ''0'')"
  have "(10 :: rat) ^ 309 \<le> 10 ^ n"
    using assms by (intro power_increasing) auto
  then have "2 ^ 1024 \<le> decimal_value ?tok"
    using binary64_limit decimal_value_power_of_ten [of n] by linarith
  then have s: "score_of ?tok = Inl OverflowError"
    using decimal_value_power_of_ten [of n] by (intro score_of_overflow) auto
  have c: "strip_bold (''Reach Score: 1'' @ replicate n (CHR ''0''))
      = ''Reach Score: 1'' @ replicate n (CHR ''0'')"
    by (rule strip_bold_id) simp
  show ?thesis
    unfolding extract_scores_eq c Let_def number_after_Reach_power_of_ten
    by (simp add: token_score_def s bind_result_def)
qed

text \<open>
  C1 does not hold of the code: a number of 310 digits or more after a label is read as the
  float infinity, which \<open>round\<close> cannot convert, and the extractor raises \<open>OverflowError\<close>
  instead of returning four scores. The clamp to 100 is never reached. By
  \<open>extract_scores_result\<close> this is the only way the claim fails.
\<close>

theorem extract_scores_overflow:
  assumes "309 \<le> n"
  shows "extract_scores (''Reach Score: 1'' @ replicate n (CHR ''0'')) = Inl OverflowError"
  using assms by (rule extract_scores_huge)

theorem extract_scores_overflow_witness:
  "(309 :: nat) \<le> 309
   \<and> extract_scores (''Reach Score: 1'' @ replicate 309 (CHR ''0'')) = Inl OverflowError"
  using extract_scores_overflow [of 309] by simp

text \<open>
  C4 does not hold of the code, for the same reason: the round loop extracts the scores of
  every evaluation, so an evaluation with such a number ends the run with \<open>OverflowError\<close>
  in round 1, before the player is asked anything, although every agent call answers.
\<close>

theorem round_loop_aborts_on_overflow:
  assumes replies: "\<forall>k a m. \<exists>reply. backend k a m = Inr reply"
    and huge: "\<forall>m. backend 1 Algorithm m = Inr (''Reach Score: 1'' @ replicate 309 (CHR ''0''))"
  shows "run_rounds backend ask = Inl OverflowError"
proof -
  define big where "big = ''Reach Score: 1'' @ replicate 309 (CHR ''0'')"
  obtain c where c: "backend 0 Creator CreatorPrompt = Inr c"
    using replies by blast
  obtain u where u: "backend (Suc (Suc 0)) Audience (AudiencePrompt c) = Inr u"
    using replies by blast
  have a: "backend (Suc 0) Algorithm (AlgorithmPrompt c) = Inr big"
    using huge by (simp add: big_def)
  have x: "extract_scores big = Inl OverflowError"
    unfolding big_def by (rule extract_scores_huge) simp
  have "play_round backend (Suc 0) initial_game = Inl OverflowError"
    unfolding play_round_def get_agent_response_def initial_game_def
    by (simp add: bind_result_def c a u x)
  then have "game_loop backend ask 0 initial_game = Inl OverflowError"
    by (subst game_loop.simps) (simp add: MAX_ITERATIONS_def)
  then show ?thesis by (simp add: run_rounds_def)
qed

theorem round_loop_aborts_on_overflow_witness:
  "(\<forall>k a m. \<exists>reply.
      (if a = Algorithm then Inr (''Reach Score: 1'' @ replicate 309 (CHR ''0'')) else Inr ''draft'')
        = (Inr reply :: error + string))
   \<and> run_rounds
         (\<lambda>k a m. if a = Algorithm then Inr (''Reach Score: 1'' @ replicate 309 (CHR ''0''))
                   else Inr ''draft'')
         (\<lambda>i. ''1'')
       = Inl OverflowError"
  using round_loop_aborts_on_overflow
          [of "\<lambda>k a m. if a = Algorithm then Inr (''Reach Score: 1'' @ replicate 309 (CHR ''0''))
                        else Inr ''draft''" "\<lambda>i. ''1''"]
  by simp


lemma score_of_80: "score_of ''80'' = Inr 80"
  using score_of_int [of "''80''" 80]
  by (simp add: is_decimal_def decimal_value_def digit_def int_of_digits_def digit_val_def)












lemma slash100_number_no_digit: "\<forall>c\<in>set L. \<not> digit c \<Longrightarrow> slash100_number L = None"
  by (induction L) auto

lemma numbers_no_digit: "\<forall>c\<in>set s. \<not> digit c \<Longrightarrow> numbers s = []"
  by (induction s) (auto simp: numbers_Nil numbers_Cons)

lemma set_after_last: "set (after_last x L) \<subseteq> set L"
  by (auto simp: after_last_def dest: set_takeWhileD)

lemma line_total_no_digit:
  assumes "\<forall>c\<in>set L. \<not> digit c"
  shows "line_total L = Inr 50"
proof -
  have "\<forall>c\<in>set (after_last (CHR ''='') L). \<not> digit c"
    using assms set_after_last [of "CHR ''=''" L] by blast
  then have "numbers (after_last (CHR ''='') L) = []"
    by (rule numbers_no_digit)
  moreover have "first_number L = None"
    using assms by (simp add: first_number_None)
  ultimately show ?thesis
    using slash100_number_no_digit [OF assms] by (simp add: line_total_def)
qed

lemma simple_score_gap:
  assumes l: "label \<in> {''Reach'', ''Engagement'', ''Virality''}"
    and a: "after_first_label label ''Score'' clean = Some (g @ d # u)"
    and g: "\<forall>c\<in>set g. \<not> digit c" and d: "digit d"
  shows "simple_score label clean = score_of (take_number (d # u))"
proof -
  have "dropWhile (\<lambda>c. \<not> digit c) (g @ d # u) = d # u"
    using g d by (simp add: dropWhile_append2)
  then have "first_number (g @ d # u) = Some (take_number (d # u))"
    by (simp add: first_number_def)
  then have "token_score (number_after_label label clean) = score_of (take_number (d # u))"
    by (simp add: number_after_label_def a token_score_def)
  then show ?thesis
    using l simple_score_labels [of clean] by auto
qed

text \<open>
  C9, as the code has it. The weighted-total step reads only the weighted-total line: the
  text from the first occurrence of the label that has a character other than a line break
  right after it, to the end of that line. When there is no such line, or no digit on it,
  the step yields 50 whatever follows on later lines, and every score set the extractor
  returns has weighted total 50. An occurrence of the label that ends its line is passed
  over. The reach, engagement and virality steps are not bound to a line: they take the
  first number after the label, whatever characters other than digits, line breaks
  included, stand between.
\<close>

theorem weighted_total_single_line:
  "((case label_line (strip_bold text) of None \<Rightarrow> True | Some L \<Rightarrow> \<forall>c\<in>set L. \<not> digit c) \<longrightarrow>
      weighted_total_score (strip_bold text) = Inr 50
      \<and> (\<forall>sc. extract_scores text = Inr sc \<longrightarrow> weighted_total sc = 50))
   \<and> (\<forall>label g d u.
         label \<in> {''Reach'', ''Engagement'', ''Virality''} \<longrightarrow>
         after_first_label label ''Score'' (strip_bold text) = Some (g @ d # u) \<longrightarrow>
         (\<forall>c\<in>set g. \<not> digit c) \<longrightarrow> digit d \<longrightarrow>
         simple_score label (strip_bold text) = score_of (take_number (d # u)))"
proof (intro conjI impI allI)
  assume h: "case label_line (strip_bold text) of None \<Rightarrow> True | Some L \<Rightarrow> \<forall>c\<in>set L. \<not> digit c"
  then show w: "weighted_total_score (strip_bold text) = Inr 50"
    by (auto simp: weighted_total_score_eq line_total_no_digit split: option.splits)
  fix sc assume "extract_scores text = Inr sc"
  then show "weighted_total sc = 50"
    using extract_scores_fields(4) [of "text" sc] w by (simp add: weighted_total_score_eq)
next
  fix label g d u
  assume "label \<in> {''Reach'', ''Engagement'', ''Virality''}"
    and "after_first_label label ''Score'' (strip_bold text) = Some (g @ d # u)"
    and "\<forall>c\<in>set g. \<not> digit c" and "digit d"
  then show "simple_score label (strip_bold text) = score_of (take_number (d # u))"
    by (rule simple_score_gap)
qed

theorem weighted_total_single_line_witness:
  "extract_scores (''Reach Score:'' @ [CHR 0x0A] @ ''65'' @ [CHR 0x0A] @ ''Weighted Total:''
                   @ [CHR 0x0A] @ ''80'') =
     Inr \<lparr>reach = 65, engagement = 50, virality = 50, weighted_total = 50\<rparr>
   \<and> label_line (strip_bold (''Reach Score:'' @ [CHR 0x0A] @ ''65'' @ [CHR 0x0A] @ ''Weighted Total:''
                   @ [CHR 0x0A] @ ''80'')) = Some ''Weighted Total:''
   \<and> weighted_total_score (strip_bold (''Reach Score:'' @ [CHR 0x0A] @ ''65'' @ [CHR 0x0A]
                   @ ''Weighted Total:'' @ [CHR 0x0A] @ ''80'')) = Inr 50
   \<and> simple_score ''Reach'' (strip_bold (''Reach Score:'' @ [CHR 0x0A] @ ''65'' @ [CHR 0x0A]
                   @ ''Weighted Total:'' @ [CHR 0x0A] @ ''80'')) = Inr 65"
proof -
  let ?text = "''Reach Score:'' @ [CHR 0x0A] @ ''65'' @ [CHR 0x0A] @ ''Weighted Total:''
                   @ [CHR 0x0A] @ ''80''"
  let ?rest = "''5'' @ [CHR 0x0A] @ ''Weighted Total:'' @ [CHR 0x0A] @ ''80''"
  have e: "extract_scores ?text =
     Inr \<lparr>reach = 65, engagement = 50, virality = 50, weighted_total = 50\<rparr>"
    by (simp add: extract_scores_eq scan_simps score_of_65)
  have l: "label_line (strip_bold ?text) = Some ''Weighted Total:''"
    by (simp add: scan_simps)
  have a: "after_first_label ''Reach'' ''Score'' (strip_bold ?text)
             = Some (('':'' @ [CHR 0x0A]) @ CHR ''6'' # ?rest)"
    by (simp add: scan_simps)
  have t: "take_number (CHR ''6'' # ?rest) = ''65''"
    by (simp add: scan_simps)
  have g: "\<forall>c\<in>set ('':'' @ [CHR 0x0A]). \<not> digit c" "digit (CHR ''6'')"
    by (simp_all add: digit_def)
  have n: "case label_line (strip_bold ?text) of None \<Rightarrow> True | Some L \<Rightarrow> \<forall>c\<in>set L. \<not> digit c"
    unfolding l by (simp add: digit_def)
  note th = weighted_total_single_line [of ?text]
  have w: "weighted_total_score (strip_bold ?text) = Inr 50"
    using th [THEN conjunct1, rule_format, OF n] by (rule conjunct1)
  have "simple_score ''Reach'' (strip_bold ?text) = score_of (take_number (CHR ''6'' # ?rest))"
    by (rule th [THEN conjunct2, THEN spec, THEN spec, THEN spec, THEN spec, THEN mp, THEN mp,
               THEN mp, THEN mp, OF _ a g]) simp
  then have r: "simple_score ''Reach'' (strip_bold ?text) = Inr 65"
    unfolding t score_of_65 .
  show ?thesis
    by (intro conjI e l w r)
qed

theorem weighted_total_later_label_counterexample:
  "extract_scores (''Weighted Total'' @ [CHR 0x0A] @ ''Weighted Total: 80'') =
     Inr \<lparr>reach = 50, engagement = 50, virality = 50, weighted_total = 80\<rparr>
   \<and> split_label ''Weighted'' ''Total'' (''Weighted Total'' @ [CHR 0x0A] @ ''Weighted Total: 80'')
       = Some (''Weighted Total'', [CHR 0x0A] @ ''Weighted Total: 80'')"
  by (simp add: extract_scores_eq scan_simps score_of_80)

text \<open>
  C10: every field is rounded half to even. Take a number whose float is exactly halfway
  between the integers \<open>n\<close> and \<open>n + 1\<close> (the decimal is \<open>n + 1/2\<close> and \<open>n\<close> is below \<open>2^52\<close>,
  beyond which a float has no half). Its score is the even one of \<open>n\<close> and \<open>n + 1\<close>, clamped
  to 100. So the reach, engagement and virality steps yield that value when the number is
  the one they find after their label, and the weighted-total step yields it when the
  number is the one it takes from the weighted-total line: the last number after the last
  \<open>=\<close>, and likewise the number before \<open>/100\<close> or the first number of the line.
\<close>

theorem scores_round_half_to_even:
  assumes "is_decimal tok" and "decimal_value tok = of_int n + 1 / 2" and "0 \<le> n" and "n < 2 ^ 52"
  shows "score_of tok = Inr (min 100 (if even n then n else n + 1))
    \<and> (\<forall>label. label \<in> {''Reach'', ''Engagement'', ''Virality''} \<longrightarrow>
          number_after_label label clean = Some tok \<longrightarrow>
          simple_score label clean = Inr (min 100 (if even n then n else n + 1)))
    \<and> (\<forall>L. label_line clean = Some L \<longrightarrow>
          (slash100_number L = Some tok
           \<or> (slash100_number L = None \<and> CHR ''='' \<in> set L
               \<and> numbers (after_last (CHR ''='') L) \<noteq> []
               \<and> last (numbers (after_last (CHR ''='') L)) = tok)
           \<or> (slash100_number L = None \<and> CHR ''='' \<notin> set L \<and> first_number L = Some tok)) \<longrightarrow>
          weighted_total_score clean = Inr (min 100 (if even n then n else n + 1)))"
proof (intro conjI allI impI)
  show s: "score_of tok = Inr (min 100 (if even n then n else n + 1))"
    using assms by (rule score_of_half)
  {
    fix label
    assume "label \<in> {''Reach'', ''Engagement'', ''Virality''}"
      and "number_after_label label clean = Some tok"
    then show "simple_score label clean = Inr (min 100 (if even n then n else n + 1))"
      using s simple_score_labels [of clean] by (auto simp: token_score_def)
  }
  fix L
  assume l: "label_line clean = Some L"
    and t: "slash100_number L = Some tok
           \<or> (slash100_number L = None \<and> CHR ''='' \<in> set L
               \<and> numbers (after_last (CHR ''='') L) \<noteq> []
               \<and> last (numbers (after_last (CHR ''='') L)) = tok)
           \<or> (slash100_number L = None \<and> CHR ''='' \<notin> set L \<and> first_number L = Some tok)"
  have "line_total L = score_of tok"
    using t by (auto simp: line_total_def split: list.splits)
  then show "weighted_total_score clean = Inr (min 100 (if even n then n else n + 1))"
    using s l by (simp add: weighted_total_score_eq)
qed

theorem scores_round_half_to_even_witness:
  "is_decimal ''61.5'' \<and> decimal_value ''61.5'' = of_int 61 + 1 / 2
   \<and> extract_scores (''Reach Score: 61.5'' @ [CHR 0x0A] @ ''Engagement Score: 61.5'' @ [CHR 0x0A]
         @ ''Virality Score: 61.5'' @ [CHR 0x0A] @ ''Weighted Total: 0.5*61 + 0.5*62 = 61.5'')
       = Inr \<lparr>reach = 62, engagement = 62, virality = 62, weighted_total = 62\<rparr>
   \<and> extract_scores ''Weighted Total: 0.5*62 + 0.5*63 = 62.5''
       = Inr \<lparr>reach = 50, engagement = 50, virality = 50, weighted_total = 62\<rparr>
   \<and> simple_score ''Reach'' (''Reach Score: 61.5'' @ [CHR 0x0A] @ ''Engagement Score: 61.5''
         @ [CHR 0x0A] @ ''Virality Score: 61.5'' @ [CHR 0x0A]
         @ ''Weighted Total: 0.5*61 + 0.5*62 = 61.5'') = Inr 62
   \<and> weighted_total_score (''Reach Score: 61.5'' @ [CHR 0x0A] @ ''Engagement Score: 61.5''
         @ [CHR 0x0A] @ ''Virality Score: 61.5'' @ [CHR 0x0A]
         @ ''Weighted Total: 0.5*61 + 0.5*62 = 61.5'') = Inr 62"
proof -
  let ?clean = "''Reach Score: 61.5'' @ [CHR 0x0A] @ ''Engagement Score: 61.5'' @ [CHR 0x0A]
         @ ''Virality Score: 61.5'' @ [CHR 0x0A] @ ''Weighted Total: 0.5*61 + 0.5*62 = 61.5''"
  let ?L = "''Weighted Total: 0.5*61 + 0.5*62 = 61.5''"
  have d: "is_decimal ''61.5''" "decimal_value ''61.5'' = of_int 61 + 1 / 2"
    by (simp_all add: is_decimal_def decimal_value_def digit_def int_of_digits_def digit_val_def)
  have b: "(0 :: int) \<le> 61" "(61 :: int) < 2 ^ 52"
    by simp_all
  note th = scores_round_half_to_even [OF d b, of ?clean]
  have e1: "extract_scores ?clean
       = Inr \<lparr>reach = 62, engagement = 62, virality = 62, weighted_total = 62\<rparr>"
    by (simp add: extract_scores_eq scan_simps score_of_61_5)
  have e2: "extract_scores ''Weighted Total: 0.5*62 + 0.5*63 = 62.5''
       = Inr \<lparr>reach = 50, engagement = 50, virality = 50, weighted_total = 62\<rparr>"
    by (simp add: extract_scores_eq scan_simps score_of_62_5)
  have v: "min (100 :: int) (if even (61 :: int) then 61 else 61 + 1) = 62"
    by simp
  have na: "number_after_label ''Reach'' ?clean = Some ''61.5''"
    by (simp add: scan_simps)
  have "simple_score ''Reach'' ?clean = Inr (min 100 (if even (61 :: int) then 61 else 61 + 1))"
    by (rule th [THEN conjunct2, THEN conjunct1, THEN spec, THEN mp, THEN mp, OF _ na]) simp
  then have r: "simple_score ''Reach'' ?clean = Inr 62"
    unfolding v .
  have l: "label_line ?clean = Some ?L"
    by (simp add: scan_simps)
  have t: "slash100_number ?L = Some ''61.5''
           \<or> (slash100_number ?L = None \<and> CHR ''='' \<in> set ?L
               \<and> numbers (after_last (CHR ''='') ?L) \<noteq> []
               \<and> last (numbers (after_last (CHR ''='') ?L)) = ''61.5'')
           \<or> (slash100_number ?L = None \<and> CHR ''='' \<notin> set ?L \<and> first_number ?L = Some ''61.5'')"
    by (simp add: scan_simps)
  have "weighted_total_score ?clean = Inr (min 100 (if even (61 :: int) then 61 else 61 + 1))"
    by (rule th [THEN conjunct2, THEN conjunct2, THEN spec, THEN mp, THEN mp, OF l t])
  then have w: "weighted_total_score ?clean = Inr 62"
    unfolding v .
  show ?thesis
    by (intro conjI d e1 e2 r w)
qed

end
